theory Spec2Isabelle
  imports Complex_Main "HOL-Library.Multiset"
begin

section \<open>Sector-weight rule checker: the numeric model\<close>

text \<open>
  The program holds every weight as a 64-bit float (\<^verbatim>\<open>dtype=float\<close>). A float is a
  rational or one of the three special values that the program can really produce:
  numpy does not raise on a division by zero, it yields \<^verbatim>\<open>inf\<close>, \<^verbatim>\<open>-inf\<close> or \<^verbatim>\<open>nan\<close>, and
  every later comparison with \<^verbatim>\<open>nan\<close> is false. The operations of this section are the
  exact ones, in which a finite result is not rounded: the rules are evaluated with
  them, and what is proved of the statuses, of the groups and of the summary does not
  depend on the rounding. The rounding and the overflow of binary64 are the next
  section; what is stated of the values that step 0 computes (their total, their order,
  the fixed point) is stated of the rounded operations. The sign of zero is outside
  the model.
\<close>

datatype fl = Fin rat | PInf | NInf | NaN

fun fadd :: "fl \<Rightarrow> fl \<Rightarrow> fl" where
  "fadd (Fin a) (Fin b) = Fin (a + b)"
| "fadd NaN _ = NaN"
| "fadd _ NaN = NaN"
| "fadd PInf NInf = NaN"
| "fadd NInf PInf = NaN"
| "fadd PInf _ = PInf"
| "fadd _ PInf = PInf"
| "fadd NInf _ = NInf"
| "fadd _ NInf = NInf"

fun fdiv :: "fl \<Rightarrow> fl \<Rightarrow> fl" where
  "fdiv (Fin a) (Fin b) =
     (if b \<noteq> 0 then Fin (a / b)
      else if 0 < a then PInf else if a < 0 then NInf else NaN)"
| "fdiv NaN _ = NaN"
| "fdiv _ NaN = NaN"
| "fdiv (Fin a) PInf = Fin 0"
| "fdiv (Fin a) NInf = Fin 0"
| "fdiv PInf (Fin b) = (if 0 \<le> b then PInf else NInf)"
| "fdiv NInf (Fin b) = (if 0 \<le> b then NInf else PInf)"
| "fdiv PInf _ = NaN"
| "fdiv NInf _ = NaN"

fun fmul :: "fl \<Rightarrow> fl \<Rightarrow> fl" where
  "fmul (Fin a) (Fin b) = Fin (a * b)"
| "fmul NaN _ = NaN"
| "fmul _ NaN = NaN"
| "fmul PInf (Fin b) = (if 0 < b then PInf else if b < 0 then NInf else NaN)"
| "fmul NInf (Fin b) = (if 0 < b then NInf else if b < 0 then PInf else NaN)"
| "fmul (Fin a) PInf = (if 0 < a then PInf else if a < 0 then NInf else NaN)"
| "fmul (Fin a) NInf = (if 0 < a then NInf else if a < 0 then PInf else NaN)"
| "fmul PInf PInf = PInf"
| "fmul NInf NInf = PInf"
| "fmul PInf NInf = NInf"
| "fmul NInf PInf = NInf"

text \<open>\<^verbatim>\<open>x < y\<close> on floats: false as soon as one side is \<^verbatim>\<open>nan\<close>.\<close>

fun flt :: "fl \<Rightarrow> fl \<Rightarrow> bool" where
  "flt (Fin a) (Fin b) = (a < b)"
| "flt NaN _ = False"
| "flt _ NaN = False"
| "flt NInf NInf = False"
| "flt NInf _ = True"
| "flt PInf _ = False"
| "flt (Fin a) PInf = True"
| "flt (Fin a) NInf = False"

definition fgt :: "fl \<Rightarrow> fl \<Rightarrow> bool" where
  "fgt x y = flt y x"

text \<open>\<^verbatim>\<open>ndarray.sum()\<close>: the sum of the entries, \<^verbatim>\<open>0.0\<close> for an empty array.\<close>

definition np_sum :: "fl list \<Rightarrow> fl" where
  "np_sum xs = foldl fadd (Fin 0) xs"

text \<open>\<^verbatim>\<open>Series.sum()\<close> of pandas skips \<^verbatim>\<open>nan\<close> entries (\<^verbatim>\<open>skipna=True\<close>).\<close>

definition pd_sum :: "fl list \<Rightarrow> fl" where
  "pd_sum xs = np_sum (filter (\<lambda>x. x \<noteq> NaN) xs)"

text \<open>
  \<^verbatim>\<open>round(x, d)\<close>: to \<open>d\<close> decimals, a tie going to the even neighbour; the special
  values pass through.
\<close>

definition round_half_even :: "rat \<Rightarrow> int" where
  "round_half_even q =
     (let f = \<lfloor>q\<rfloor>; r = q - of_int f
      in if r < 1 / 2 then f else if 1 / 2 < r then f + 1
         else if even f then f else f + 1)"

fun py_round :: "fl \<Rightarrow> nat \<Rightarrow> fl" where
  "py_round (Fin q) d = Fin (of_int (round_half_even (q * 10 ^ d)) / 10 ^ d)"
| "py_round x d = x"

text \<open>
  The exceptions that the operations of the program can raise. The module defines no
  exception class of its own and has no \<^verbatim>\<open>raise\<close> statement. \<open>TypeError\<close> is only
  used by the store model below, for an object of the wrong kind at an address;
  \<open>OverflowError\<close> is raised by the conversion of an int that is too large for a float
  (line 29).
\<close>

datatype error = ValueError | IndexError | KeyError | TypeError | OverflowError

definition ebind :: "error + 'a \<Rightarrow> ('a \<Rightarrow> error + 'b) \<Rightarrow> error + 'b" where
  "ebind m f = (case m of Inl e \<Rightarrow> Inl e | Inr x \<Rightarrow> f x)"

text \<open>
  \<^verbatim>\<open>np.argmax\<close>: the first index of the largest entry, the first \<^verbatim>\<open>nan\<close> when there
  is one (numpy's loop replaces the running maximum \<open>mp\<close> when \<^verbatim>\<open>!(x <= mp)\<close> and
  stops at a \<^verbatim>\<open>nan\<close>); ValueError on an empty array.
\<close>

fun argmax_loop :: "nat \<Rightarrow> fl \<Rightarrow> nat \<Rightarrow> fl list \<Rightarrow> nat" where
  "argmax_loop mi mp i [] = mi"
| "argmax_loop mi mp i (x # xs) =
     (if mp = NaN then mi
      else if x = NaN \<or> flt mp x then argmax_loop i x (Suc i) xs
      else argmax_loop mi mp (Suc i) xs)"

definition np_argmax :: "fl list \<Rightarrow> error + nat" where
  "np_argmax ws = (case ws of [] \<Rightarrow> Inl ValueError | x # xs \<Rightarrow> Inr (argmax_loop 0 x 1 xs))"

text \<open>\<^verbatim>\<open>list.index(x)\<close>: the first position of \<open>x\<close>, ValueError when it is absent.\<close>

fun index_from :: "nat \<Rightarrow> 'a list \<Rightarrow> 'a \<Rightarrow> error + nat" where
  "index_from i [] x = Inl ValueError"
| "index_from i (y # ys) x = (if y = x then Inr i else index_from (Suc i) ys x)"

definition list_index :: "'a list \<Rightarrow> 'a \<Rightarrow> error + nat" where
  "list_index xs x = index_from 0 xs x"

section \<open>Binary64 arithmetic\<close>

text \<open>
  Line 30 computes in IEEE 754 binary64, rounding to nearest with ties to even. The
  result of an operation is the exact result rounded: to 53 significant bits, to a
  multiple of \<open>1 / 2 ^ 1074\<close> when it is below \<open>1 / 2 ^ 1022\<close>, and to an infinity when
  the rounded magnitude reaches \<open>2 ^ 1024\<close>.
\<close>

function log2i :: "int \<Rightarrow> int" where
  "log2i n = (if n < 2 then 0 else 1 + log2i (n div 2))"
  by pat_completeness auto
termination
  by (relation "measure nat") auto

declare log2i.simps [simp del]

text \<open>
  For \<open>q > 0\<close>, \<open>exponent q\<close> is the integer \<open>e\<close> with \<open>2 powi e \<le> q < 2 powi (e + 1)\<close>
  (lemma \<open>exponent_bounds\<close>): the difference of the bit lengths of the numerator and
  the denominator, or one less.
\<close>

definition exponent :: "rat \<Rightarrow> int" where
  "exponent q =
     (let p = fst (quotient_of q); d = snd (quotient_of q);
          k = log2i p - log2i d
      in if 2 powi k \<le> q then k else k - 1)"

text \<open>
  A positive rational rounded to the nearest multiple of its unit in the last place,
  \<open>2 powi (e - 52)\<close>, where \<open>e\<close> is the exponent, or \<open>- 1022\<close> for a subnormal number.
\<close>

definition round_pos :: "rat \<Rightarrow> rat" where
  "round_pos q =
     (let e = max (exponent q) (- 1022); u = 2 powi (e - 52)
      in of_int (round_half_even (q / u)) * u)"

definition round_b64 :: "rat \<Rightarrow> fl" where
  "round_b64 q =
     (if q = 0 then Fin 0
      else let r = round_pos \<bar>q\<bar>
           in if 2 powi 1024 \<le> r then (if 0 < q then PInf else NInf)
              else Fin (if 0 < q then r else - r))"

fun b64 :: "fl \<Rightarrow> fl" where
  "b64 (Fin q) = round_b64 q"
| "b64 x = x"

definition b64_add :: "fl \<Rightarrow> fl \<Rightarrow> fl" where
  "b64_add x y = b64 (fadd x y)"

definition b64_div :: "fl \<Rightarrow> fl \<Rightarrow> fl" where
  "b64_div x y = b64 (fdiv x y)"

definition b64_mul :: "fl \<Rightarrow> fl \<Rightarrow> fl" where
  "b64_mul x y = b64 (fmul x y)"

text \<open>
  \<^verbatim>\<open>ndarray.sum()\<close> in binary64. numpy adds the entries of an array in blocks, and the
  source does not say in which order; so the total is given by a relation:
  \<open>b64_sum_of ws t\<close> holds when \<open>t\<close> is the result of adding the entries of \<open>ws\<close> in some
  order and with some bracketing, every addition rounded. Adding from left to right is
  one such order (lemma \<open>sum_left_to_right_is_sum\<close>).
\<close>

fun sum_left_to_right :: "fl list \<Rightarrow> fl" where
  "sum_left_to_right [] = Fin 0"
| "sum_left_to_right (w # ws) = foldl b64_add w ws"

inductive b64_sum_of :: "fl list \<Rightarrow> fl \<Rightarrow> bool" where
  empty: "b64_sum_of [] (Fin 0)"
| single: "b64_sum_of [w] w"
| node: "b64_sum_of xs a \<Longrightarrow> b64_sum_of ys b \<Longrightarrow> xs \<noteq> [] \<Longrightarrow> ys \<noteq> [] \<Longrightarrow>
         mset ws = mset xs + mset ys \<Longrightarrow> b64_sum_of ws (b64_add a b)"

text \<open>
  Line 29, \<^verbatim>\<open>np.array([...], dtype=float)\<close>. A weight of the caller's mapping is a Python
  float or a Python int. A float is taken as it is; an int is rounded to the nearest
  float, and the conversion raises OverflowError when that is not a finite float.
\<close>

datatype pyval = PyFloat fl | PyInt int

definition float_of :: "pyval \<Rightarrow> error + fl" where
  "float_of v =
     (case v of
        PyFloat x \<Rightarrow> Inr x
      | PyInt n \<Rightarrow> (case round_b64 (of_int n) of Fin q \<Rightarrow> Inr (Fin q) | _ \<Rightarrow> Inl OverflowError))"

fun np_array_float :: "pyval list \<Rightarrow> error + fl list" where
  "np_array_float [] = Inr []"
| "np_array_float (v # vs) =
     ebind (float_of v) (\<lambda>x. ebind (np_array_float vs) (\<lambda>xs. Inr (x # xs)))"

section \<open>Connected components\<close>

text \<open>
  \<^verbatim>\<open>connected_components_from_adj(adj)\<close>. The matrix is a list of rows; \<open>n\<close> is the
  number of rows, and the \<open>visited\<close> list has that length throughout. The stack is a
  Python list: \<^verbatim>\<open>pop()\<close> takes the last element, \<^verbatim>\<open>append\<close> adds at the end.
  Reading \<^verbatim>\<open>adj[u, v]\<close> in a matrix with fewer than \<open>n\<close> columns raises IndexError.
\<close>

definition scan_row :: "bool list list \<Rightarrow> nat \<Rightarrow> bool list \<times> nat list \<Rightarrow> nat \<Rightarrow> bool list \<times> nat list" where
  "scan_row adj u st v =
     (case st of (visited, stack) \<Rightarrow>
        if adj ! u ! v \<and> \<not> visited ! v then (visited[v := True], stack @ [v])
        else (visited, stack))"

function dfs_while :: "bool list list \<Rightarrow> bool list \<Rightarrow> nat list \<Rightarrow> nat list \<Rightarrow> bool list \<times> nat list" where
  "dfs_while adj visited stack cmp =
     (if stack = [] then (visited, cmp)
      else
        let u = last stack;
            st = foldl (scan_row adj u) (visited, butlast stack) [0..<length visited]
        in dfs_while adj (fst st) (snd st) (cmp @ [u]))"
  by pat_completeness auto

definition cc_step :: "bool list list \<Rightarrow> bool list \<times> nat list list \<Rightarrow> nat \<Rightarrow> bool list \<times> nat list list" where
  "cc_step adj st i =
     (case st of (visited, comps) \<Rightarrow>
        if \<not> visited ! i then
          (let r = dfs_while adj (visited[i := True]) [i] [] in (fst r, comps @ [snd r]))
        else (visited, comps))"

definition connected_components_from_adj :: "bool list list \<Rightarrow> error + nat list list" where
  "connected_components_from_adj adj =
     (let n = length adj
      in if \<exists>row \<in> set adj. length row < n then Inl IndexError
         else Inr (snd (foldl (cc_step adj) (replicate n False, []) [0..<n])))"

section \<open>The report\<close>

datatype status = OK | ADVISORY | SOFT_WARNING | HARD_VIOLATION | ANALYZED

text \<open>
  The \<^verbatim>\<open>message\<close> of a finding is an f-string; the model keeps which template it is
  and the values put into it (rule 1: the sector and its weight; rule 2: the number of
  groups; rules 3 to 5: the sum).
\<close>

datatype message =
    Single_sector_msg string fl
  | Corr_groups_msg nat
  | Defensive_msg fl
  | Reits_msg fl
  | Energy_materials_msg fl

record comp_info =
  members :: "string list"
  weight_sum :: fl
  avg_corr :: fl

text \<open>An entry of \<^verbatim>\<open>corr_violations\<close>: the keys of a \<open>comp_info\<close> and a \<^verbatim>\<open>status\<close>.\<close>

record violation = comp_info +
  cluster_status :: status

text \<open>
  An entry of \<^verbatim>\<open>report['checks']\<close>. The five dictionaries do not have the same keys:
  a key that a rule does not set is \<open>None\<close>.
\<close>

record finding =
  rule_no :: nat
  status :: status
  sector :: "string option"
  val :: "fl option"
  components :: "comp_info list option"
  violations :: "violation list option"
  message :: message

record summary =
  hard_violations_count :: nat
  soft_warnings_count :: nat
  hard_violations :: "finding list"
  soft_warnings :: "finding list"

record report =
  timestamp :: string
  input_weights :: "(string \<times> fl) list"
  checks :: "finding list"
  summary :: summary

text \<open>A line of the verbose trace (\<^verbatim>\<open>print\<close>).\<close>

datatype trace_line =
    Header_line
  | Totals_line nat fl
  | Rule_line nat status message

section \<open>The rule evaluator\<close>

text \<open>
  Step 0, \<^verbatim>\<open>weights / weights.sum() * 100\<close>: a new array, each entry divided by the
  total and multiplied by 100. No check is made on the total.
\<close>

definition normalize_weights :: "fl list \<Rightarrow> fl list" where
  "normalize_weights ws = (let s = np_sum ws in map (\<lambda>w. fmul (fdiv w s) (Fin 100)) ws)"

text \<open>
  Step 0 in binary64, for the value \<open>t\<close> that \<^verbatim>\<open>weights.sum()\<close> returned: the quotient is
  rounded, then the product.
\<close>

definition normalize_b64 :: "fl \<Rightarrow> fl list \<Rightarrow> fl list" where
  "normalize_b64 t ws = map (\<lambda>w. b64_mul (b64_div w t) (Fin 100)) ws"

text \<open>
  \<^verbatim>\<open>weight_series[labels]\<close>: the values at the labels, in the order of the labels;
  KeyError on a label that the index does not hold.
\<close>

fun series_loc :: "(string \<times> fl) list \<Rightarrow> string list \<Rightarrow> error + fl list" where
  "series_loc ser [] = Inr []"
| "series_loc ser (l # ls) =
     (case map_of ser l of
        None \<Rightarrow> Inl KeyError
      | Some v \<Rightarrow> ebind (series_loc ser ls) (\<lambda>vs. Inr (v # vs)))"

text \<open>\<^verbatim>\<open>p in s\<close> on strings: \<open>p\<close> occurs in \<open>s\<close> as a contiguous substring.\<close>

fun starts_with :: "string \<Rightarrow> string \<Rightarrow> bool" where
  "starts_with [] s = True"
| "starts_with (p # ps) [] = False"
| "starts_with (p # ps) (c # cs) = (p = c \<and> starts_with ps cs)"

fun contains_str :: "string \<Rightarrow> string \<Rightarrow> bool" where
  "contains_str p [] = (p = [])"
| "contains_str p (c # cs) = (starts_with p (c # cs) \<or> contains_str p cs)"

subsection \<open>Rule 1: the largest single sector\<close>

definition rule1_status :: "fl \<Rightarrow> status" where
  "rule1_status max_weight =
     (if fgt max_weight (Fin 40) then HARD_VIOLATION
      else if fgt max_weight (Fin 30) then SOFT_WARNING
      else OK)"

text \<open>
  Lines 41 to 56. \<^verbatim>\<open>max_idx\<close> is a position of \<open>weights\<close> (lemma \<open>np_argmax_ok\<close>), and
  \<open>sectors\<close> has the same length, so both reads are in range.
\<close>

definition rule1 :: "string list \<Rightarrow> fl list \<Rightarrow> error + finding" where
  "rule1 sectors weights =
     ebind (np_argmax weights) (\<lambda>max_idx.
       let max_sector = sectors ! max_idx;
           max_weight = weights ! max_idx
       in Inr \<lparr>rule_no = 1, status = rule1_status max_weight, sector = Some max_sector,
               val = Some (py_round max_weight 2), components = None, violations = None,
               message = Single_sector_msg max_sector max_weight\<rparr>)"

subsection \<open>Rule 2: correlated groups\<close>

definition high_corr_pairs :: "(string \<times> string) list" where
  "high_corr_pairs =
     [(''Information Technology'', ''Communication Services''),
      (''Energy'', ''Materials''),
      (''Consumer Staples'', ''Health Care''),
      (''Industrials'', ''Financials''),
      (''Consumer Discretionary'', ''Communication Services'')]"

definition identity_matrix :: "nat \<Rightarrow> rat list list" where
  "identity_matrix n = map (\<lambda>i. map (\<lambda>j. if i = j then 1 else 0) [0..<n]) [0..<n]"

definition mat_set :: "'a list list \<Rightarrow> nat \<Rightarrow> nat \<Rightarrow> 'a \<Rightarrow> 'a list list" where
  "mat_set m i j v = m[i := (m ! i)[j := v]]"

text \<open>
  The loop over \<^verbatim>\<open>high_corr_pairs\<close>. \<^verbatim>\<open>sectors.index(s1)\<close> raises ValueError when
  the portfolio does not hold \<open>s1\<close>; nothing catches it. The chained assignment writes
  \<open>[i, j]\<close> first, then \<open>[j, i]\<close>.
\<close>

fun set_pairs :: "string list \<Rightarrow> (string \<times> string) list \<Rightarrow> rat list list \<Rightarrow> error + rat list list" where
  "set_pairs sectors [] m = Inr m"
| "set_pairs sectors ((s1, s2) # ps) m =
     ebind (list_index sectors s1) (\<lambda>i.
     ebind (list_index sectors s2) (\<lambda>j.
       set_pairs sectors ps (mat_set (mat_set m i j (7 / 10)) j i (7 / 10))))"

definition corr_matrix_of :: "string list \<Rightarrow> error + rat list list" where
  "corr_matrix_of sectors = set_pairs sectors high_corr_pairs (identity_matrix (length sectors))"

text \<open>
  \<^verbatim>\<open>adj = (corr_matrix > 0.6).astype(int)\<close>, \<^verbatim>\<open>np.fill_diagonal(adj, 0)\<close>,
  \<^verbatim>\<open>adj.astype(bool)\<close>.
\<close>

definition fill_diagonal :: "'a list list \<Rightarrow> 'a \<Rightarrow> 'a list list" where
  "fill_diagonal m v = map (\<lambda>i. (m ! i)[i := v]) [0..<length m]"

definition threshold_matrix :: "rat list list \<Rightarrow> int list list" where
  "threshold_matrix corr_matrix = map (map (\<lambda>c. if 6 / 10 < c then 1 else 0)) corr_matrix"

definition astype_bool :: "int list list \<Rightarrow> bool list list" where
  "astype_bool m = map (map (\<lambda>x. x \<noteq> 0)) m"

definition adjacency :: "rat list list \<Rightarrow> bool list list" where
  "adjacency corr_matrix =
     (let adj = threshold_matrix corr_matrix
      in astype_bool (fill_diagonal adj 0))"

text \<open>
  The mean of the entries above the diagonal of \<^verbatim>\<open>corr_matrix[np.ix_(c, c)]\<close>,
  \<open>1.0\<close> for a group of one sector.
\<close>

definition triu_values :: "rat list list \<Rightarrow> nat list \<Rightarrow> rat list" where
  "triu_values corr_matrix c =
     concat (map (\<lambda>a. map (\<lambda>b. corr_matrix ! (c ! a) ! (c ! b)) [Suc a..<length c]) [0..<length c])"

definition avg_corr_of :: "rat list list \<Rightarrow> nat list \<Rightarrow> fl" where
  "avg_corr_of corr_matrix c =
     (if 1 < length c
      then Fin (sum_list (triu_values corr_matrix c) / of_nat (length (triu_values corr_matrix c)))
      else Fin 1)"

definition comp_violation :: "fl \<Rightarrow> status option" where
  "comp_violation comp_weight =
     (if fgt comp_weight (Fin 60) then Some HARD_VIOLATION
      else if fgt comp_weight (Fin 50) then Some SOFT_WARNING
      else None)"

text \<open>
  \<^verbatim>\<open>[sectors[i] for i in comp]\<close>. Every index of a component is below the number of sectors
  (lemma \<open>connected_components_partition\<close>), so the reads are in range.
\<close>

definition comp_sectors_of :: "string list \<Rightarrow> nat list \<Rightarrow> string list" where
  "comp_sectors_of sectors c = map (\<lambda>i. sectors ! i) c"

definition comp_weight_of :: "(string \<times> fl) list \<Rightarrow> string list \<Rightarrow> error + fl" where
  "comp_weight_of weight_series comp_sectors =
     ebind (series_loc weight_series comp_sectors) (\<lambda>vs. Inr (pd_sum vs))"

fun comp_loop :: "string list \<Rightarrow> (string \<times> fl) list \<Rightarrow> rat list list \<Rightarrow> nat list list \<Rightarrow>
    comp_info list \<times> violation list \<Rightarrow> error + comp_info list \<times> violation list" where
  "comp_loop sectors weight_series corr_matrix [] acc = Inr acc"
| "comp_loop sectors weight_series corr_matrix (c # cs) acc =
     (let comp_sectors = comp_sectors_of sectors c
      in ebind (comp_weight_of weight_series comp_sectors) (\<lambda>comp_weight.
           let avg = avg_corr_of corr_matrix c;
               info = \<lparr>members = comp_sectors, weight_sum = py_round comp_weight 2,
                       avg_corr = py_round avg 3\<rparr>;
               viols = (case comp_violation comp_weight of
                          None \<Rightarrow> snd acc
                        | Some s \<Rightarrow> snd acc @
                            [\<lparr>members = comp_sectors, weight_sum = py_round comp_weight 2,
                              avg_corr = py_round avg 3, cluster_status = s\<rparr>])
           in comp_loop sectors weight_series corr_matrix cs (fst acc @ [info], viols)))"

text \<open>Lines 61 to 77: the correlation matrix, the adjacency matrix, the groups.\<close>

definition correlation_groups :: "string list \<Rightarrow> error + rat list list \<times> nat list list" where
  "correlation_groups sectors =
     ebind (corr_matrix_of sectors) (\<lambda>corr_matrix.
     ebind (connected_components_from_adj (adjacency corr_matrix)) (\<lambda>comps.
       Inr (corr_matrix, comps)))"

text \<open>Lines 78 to 96: the loop over the groups and the finding of rule 2.\<close>

definition rule2_finding :: "string list \<Rightarrow> (string \<times> fl) list \<Rightarrow> rat list list \<Rightarrow> nat list list \<Rightarrow> error + finding" where
  "rule2_finding sectors weight_series corr_matrix comps =
     ebind (comp_loop sectors weight_series corr_matrix comps ([], [])) (\<lambda>(comp_infos, corr_violations).
       Inr \<lparr>rule_no = 2, status = ANALYZED, sector = None, val = None,
            components = Some comp_infos, violations = Some corr_violations,
            message = Corr_groups_msg (length comp_infos)\<rparr>)"

definition rule2 :: "string list \<Rightarrow> (string \<times> fl) list \<Rightarrow> error + finding" where
  "rule2 sectors weight_series =
     ebind (correlation_groups sectors) (\<lambda>(corr_matrix, comps).
       rule2_finding sectors weight_series corr_matrix comps)"

subsection \<open>Rule 3: defensive sectors\<close>

definition defensive :: "string list" where
  "defensive = [''Consumer Staples'', ''Health Care'', ''Utilities'']"

definition rule3_status :: "fl \<Rightarrow> status" where
  "rule3_status defensive_sum =
     (if flt defensive_sum (Fin 5) then HARD_VIOLATION
      else if flt defensive_sum (Fin 10) then SOFT_WARNING
      else OK)"

definition defensive_sum_of :: "string list \<Rightarrow> (string \<times> fl) list \<Rightarrow> error + fl" where
  "defensive_sum_of sectors weight_series =
     ebind (series_loc weight_series (filter (\<lambda>s. s \<in> set sectors) defensive))
       (\<lambda>vs. Inr (pd_sum vs))"

definition rule3 :: "string list \<Rightarrow> (string \<times> fl) list \<Rightarrow> error + finding" where
  "rule3 sectors weight_series =
     ebind (defensive_sum_of sectors weight_series) (\<lambda>defensive_sum.
       Inr \<lparr>rule_no = 3, status = rule3_status defensive_sum, sector = None,
            val = Some (py_round defensive_sum 2), components = None, violations = None,
            message = Defensive_msg defensive_sum\<rparr>)"

subsection \<open>Rule 4: real estate\<close>

definition rule4_status :: "fl \<Rightarrow> status" where
  "rule4_status reit_sum =
     (if fgt reit_sum (Fin 20) then HARD_VIOLATION
      else if fgt reit_sum (Fin 15) then SOFT_WARNING
      else OK)"

definition reit_sum_of :: "string list \<Rightarrow> (string \<times> fl) list \<Rightarrow> error + fl" where
  "reit_sum_of sectors weight_series =
     (let reits = filter (contains_str ''Real Estate'') sectors
      in if reits \<noteq> [] then ebind (series_loc weight_series reits) (\<lambda>vs. Inr (pd_sum vs))
         else Inr (Fin 0))"

definition rule4 :: "string list \<Rightarrow> (string \<times> fl) list \<Rightarrow> error + finding" where
  "rule4 sectors weight_series =
     ebind (reit_sum_of sectors weight_series) (\<lambda>reit_sum.
       Inr \<lparr>rule_no = 4, status = rule4_status reit_sum, sector = None,
            val = Some (py_round reit_sum 2), components = None, violations = None,
            message = Reits_msg reit_sum\<rparr>)"

subsection \<open>Rule 5: energy and materials\<close>

definition rule5_status :: "fl \<Rightarrow> status" where
  "rule5_status em_sum =
     (if fgt em_sum (Fin 25) then HARD_VIOLATION
      else if fgt em_sum (Fin 20) then SOFT_WARNING
      else if fgt em_sum (Fin 15) then ADVISORY
      else OK)"

definition em_sum_of :: "string list \<Rightarrow> (string \<times> fl) list \<Rightarrow> error + fl" where
  "em_sum_of sectors weight_series =
     (let em = filter (\<lambda>s. s \<in> set sectors) [''Energy'', ''Materials'']
      in if em \<noteq> [] then ebind (series_loc weight_series em) (\<lambda>vs. Inr (pd_sum vs))
         else Inr (Fin 0))"

definition rule5 :: "string list \<Rightarrow> (string \<times> fl) list \<Rightarrow> error + finding" where
  "rule5 sectors weight_series =
     ebind (em_sum_of sectors weight_series) (\<lambda>em_sum.
       Inr \<lparr>rule_no = 5, status = rule5_status em_sum, sector = None,
            val = Some (py_round em_sum 2), components = None, violations = None,
            message = Energy_materials_msg em_sum\<rparr>)"

subsection \<open>The summary, the trace and the whole evaluation\<close>

definition summarize :: "finding list \<Rightarrow> summary" where
  "summarize cs =
     (let hard = filter (\<lambda>c. status c = HARD_VIOLATION) cs;
          soft = filter (\<lambda>c. status c = SOFT_WARNING) cs
      in \<lparr>hard_violations_count = length hard, soft_warnings_count = length soft,
          hard_violations = hard, soft_warnings = soft\<rparr>)"

definition verbose_trace :: "string list \<Rightarrow> fl list \<Rightarrow> finding list \<Rightarrow> trace_line list" where
  "verbose_trace sectors weights cs =
     Header_line # Totals_line (length sectors) (py_round (np_sum weights) 2)
       # map (\<lambda>chk. Rule_line (rule_no chk) (status chk) (message chk)) cs"

text \<open>Lines 98 to 163: rules 3 to 5, the summary, the trace and the returned report.\<close>

definition finish_report ::
    "string list \<Rightarrow> fl list \<Rightarrow> (string \<times> fl) list \<Rightarrow> finding \<Rightarrow> finding \<Rightarrow> bool \<Rightarrow> string \<Rightarrow>
     error + report \<times> trace_line list" where
  "finish_report sectors weights weight_series c1 c2 verbose now =
     ebind (rule3 sectors weight_series) (\<lambda>c3.
     ebind (rule4 sectors weight_series) (\<lambda>c4.
     ebind (rule5 sectors weight_series) (\<lambda>c5.
       let cs = [c1, c2, c3, c4, c5];
           rep = \<lparr>timestamp = now @ ''Z'', input_weights = weight_series,
                  checks = cs, summary = summarize cs\<rparr>
       in Inr (rep, if verbose then verbose_trace sectors weights cs else []))))"

text \<open>
  \<^verbatim>\<open>check_portfolio_rules(sector_weights, verbose)\<close>. The dictionary is the list of its
  items in insertion order (its keys are distinct); \<open>now\<close> is what
  \<^verbatim>\<open>datetime.utcnow().isoformat()\<close> returns. The result is the report and the lines
  printed, or the exception that leaves the function.
\<close>

definition check_portfolio_rules ::
    "(string \<times> fl) list \<Rightarrow> bool \<Rightarrow> string \<Rightarrow> error + report \<times> trace_line list" where
  "check_portfolio_rules sector_weights verbose now =
     (let sectors = map fst sector_weights;
          weights = normalize_weights (map snd sector_weights);
          weight_series = zip sectors weights
      in ebind (rule1 sectors weights) (\<lambda>c1.
         ebind (rule2 sectors weight_series) (\<lambda>c2.
           finish_report sectors weights weight_series c1 c2 verbose now)))"

text \<open>
  The call with the mapping as the caller gives it: line 29 converts the weights, and
  the evaluation goes on with the converted array.
\<close>

definition check_portfolio_rules_py ::
    "(string \<times> pyval) list \<Rightarrow> bool \<Rightarrow> string \<Rightarrow> error + report \<times> trace_line list" where
  "check_portfolio_rules_py sector_weights verbose now =
     ebind (np_array_float (map snd sector_weights)) (\<lambda>weights.
       check_portfolio_rules (zip (map fst sector_weights) weights) verbose now)"

section \<open>The evaluation on a store\<close>

text \<open>
  To say what a call does to the objects of its caller, the objects are put in a store:
  a list of objects, an address being a position in it. The caller's dictionary is the
  object at the address that the call receives. The model follows the arrays of the
  function through the store: the list of names (line 28), the array of raw weights
  (line 29), the two arrays that line 30 creates (the quotient and the product; the name
  \<open>weights\<close> is bound to the last one), the correlation matrix (line 61), which the loop
  of lines 69 to 72 writes in place, and the adjacency matrix (line 75), which
  \<^verbatim>\<open>np.fill_diagonal\<close> writes in place before line 77 copies it to a matrix of
  booleans. The lists and dictionaries of the report are values, as before.
\<close>

datatype obj =
    Dict "(string \<times> fl) list"
  | Names "string list"
  | Array "fl list"
  | FMatrix "rat list list"
  | IMatrix "int list list"
  | BMatrix "bool list list"

type_synonym store = "obj list"

definition lookup :: "store \<Rightarrow> nat \<Rightarrow> obj option" where
  "lookup s a = (if a < length s then Some (s ! a) else None)"

text \<open>A step of the evaluation: it may change the store, and it returns or raises.\<close>

type_synonym 'a step = "store \<Rightarrow> store \<times> (error + 'a)"

definition sbind :: "'a step \<Rightarrow> ('a \<Rightarrow> 'b step) \<Rightarrow> 'b step" where
  "sbind m f s = (case m s of (s', Inl e) \<Rightarrow> (s', Inl e) | (s', Inr x) \<Rightarrow> f x s')"

definition lift :: "error + 'a \<Rightarrow> 'a step" where
  "lift r s = (s, r)"

definition new_obj :: "obj \<Rightarrow> nat step" where
  "new_obj ob s = (s @ [ob], Inr (length s))"

definition put_obj :: "nat \<Rightarrow> obj \<Rightarrow> unit step" where
  "put_obj a ob s = (s[a := ob], Inr ())"

definition get_dict :: "nat \<Rightarrow> ((string \<times> fl) list) step" where
  "get_dict a s = (s, case lookup s a of Some (Dict d) \<Rightarrow> Inr d | _ \<Rightarrow> Inl TypeError)"

definition get_fmatrix :: "nat \<Rightarrow> (rat list list) step" where
  "get_fmatrix a s = (s, case lookup s a of Some (FMatrix m) \<Rightarrow> Inr m | _ \<Rightarrow> Inl TypeError)"

definition get_imatrix :: "nat \<Rightarrow> (int list list) step" where
  "get_imatrix a s = (s, case lookup s a of Some (IMatrix m) \<Rightarrow> Inr m | _ \<Rightarrow> Inl TypeError)"

text \<open>Lines 69 to 72 on the store: each pair writes the matrix at \<open>a\<close> in place.\<close>

fun set_pairs_st :: "string list \<Rightarrow> (string \<times> string) list \<Rightarrow> nat \<Rightarrow> unit step" where
  "set_pairs_st sectors [] a = lift (Inr ())"
| "set_pairs_st sectors ((s1, s2) # ps) a =
     sbind (lift (list_index sectors s1)) (\<lambda>i.
     sbind (lift (list_index sectors s2)) (\<lambda>j.
     sbind (get_fmatrix a) (\<lambda>m.
     sbind (put_obj a (FMatrix (mat_set (mat_set m i j (7 / 10)) j i (7 / 10)))) (\<lambda>_.
       set_pairs_st sectors ps a))))"

text \<open>\<^verbatim>\<open>np.fill_diagonal(adj, 0)\<close> on the store.\<close>

definition fill_diagonal_st :: "nat \<Rightarrow> int \<Rightarrow> unit step" where
  "fill_diagonal_st a v = sbind (get_imatrix a) (\<lambda>m. put_obj a (IMatrix (fill_diagonal m v)))"

text \<open>Lines 28 to 30 on the store: the names, the raw array, the quotient, the product.\<close>

definition normalize_st :: "nat \<Rightarrow> (string list \<times> fl list) step" where
  "normalize_st d =
     sbind (get_dict d) (\<lambda>sector_weights.
     let sectors = map fst sector_weights;
         raw = map snd sector_weights;
         quot = map (\<lambda>w. fdiv w (np_sum raw)) raw;
         weights = map (\<lambda>w. fmul w (Fin 100)) quot
     in
     sbind (new_obj (Names sectors)) (\<lambda>a_sectors.
     sbind (new_obj (Array raw)) (\<lambda>a_raw.
     sbind (new_obj (Array quot)) (\<lambda>a_quot.
     sbind (new_obj (Array weights)) (\<lambda>a_weights.
       lift (Inr (sectors, weights)))))))"

text \<open>Lines 61 to 77 on the store.\<close>

definition correlation_groups_st :: "string list \<Rightarrow> (rat list list \<times> nat list list) step" where
  "correlation_groups_st sectors =
     sbind (new_obj (FMatrix (identity_matrix (length sectors)))) (\<lambda>a_corr.
     sbind (set_pairs_st sectors high_corr_pairs a_corr) (\<lambda>_.
     sbind (get_fmatrix a_corr) (\<lambda>corr_matrix.
     sbind (new_obj (IMatrix (threshold_matrix corr_matrix))) (\<lambda>a_adj.
     sbind (fill_diagonal_st a_adj 0) (\<lambda>_.
     sbind (get_imatrix a_adj) (\<lambda>adj.
     sbind (new_obj (BMatrix (astype_bool adj))) (\<lambda>a_bool.
     sbind (lift (connected_components_from_adj (astype_bool adj))) (\<lambda>comps.
       lift (Inr (corr_matrix, comps))))))))))"

text \<open>The whole call, given the address of the caller's dictionary.\<close>

definition check_portfolio_rules_st :: "nat \<Rightarrow> bool \<Rightarrow> string \<Rightarrow> (report \<times> trace_line list) step" where
  "check_portfolio_rules_st d verbose now =
     sbind (normalize_st d) (\<lambda>(sectors, weights).
     sbind (lift (rule1 sectors weights)) (\<lambda>c1.
     sbind (correlation_groups_st sectors) (\<lambda>(corr_matrix, comps).
     sbind (lift (rule2_finding sectors (zip sectors weights) corr_matrix comps)) (\<lambda>c2.
       lift (finish_report sectors weights (zip sectors weights) c1 c2 verbose now)))))"

section \<open>Example portfolios\<close>

text \<open>The portfolio of the module's own example run (it sums to 100).\<close>

definition example_weights :: "(string \<times> fl) list" where
  "example_weights =
     [(''Information Technology'', Fin 28), (''Communication Services'', Fin 12),
      (''Consumer Discretionary'', Fin 10), (''Consumer Staples'', Fin 6),
      (''Health Care'', Fin 10), (''Financials'', Fin 8), (''Industrials'', Fin 10),
      (''Energy'', Fin 5), (''Materials'', Fin 4), (''Real Estate'', Fin 4),
      (''Utilities'', Fin 3)]"

text \<open>The same portfolio with a negative weight, and with every weight zero.\<close>

definition negative_weights :: "(string \<times> fl) list" where
  "negative_weights = example_weights[10 := (''Utilities'', Fin (- 3))]"

definition zero_weights :: "(string \<times> fl) list" where
  "zero_weights = map (\<lambda>p. (fst p, Fin 0)) example_weights"

text \<open>
  A portfolio whose group of Information Technology, Communication Services and Consumer
  Discretionary holds 65 percent, while no single rule is violated.
\<close>

definition clustered_weights :: "(string \<times> fl) list" where
  "clustered_weights =
     [(''Information Technology'', Fin 30), (''Communication Services'', Fin 20),
      (''Consumer Discretionary'', Fin 15), (''Consumer Staples'', Fin 5),
      (''Health Care'', Fin 5), (''Financials'', Fin 5), (''Industrials'', Fin 5),
      (''Energy'', Fin 4), (''Materials'', Fin 3), (''Real Estate'', Fin 3),
      (''Utilities'', Fin 5)]"

text \<open>
  Portfolios whose metrics sit on the thresholds. The first one sums to 50, so that it
  is normalized to: largest sector 40, group of three 50, defensive sum 5, real estate
  20, energy and materials 25. The second: largest sector 30, group of three 60, real
  estate 15, energy and materials 20. The third: defensive sum 10, energy and materials
  15. The fourth has a sector of 41.
\<close>

definition boundary_weights_a :: "(string \<times> fl) list" where
  "boundary_weights_a =
     [(''Information Technology'', Fin 20), (''Communication Services'', Fin (5 / 2)),
      (''Consumer Discretionary'', Fin (5 / 2)), (''Consumer Staples'', Fin 1),
      (''Health Care'', Fin 1), (''Financials'', Fin 0), (''Industrials'', Fin 0),
      (''Energy'', Fin (15 / 2)), (''Materials'', Fin 5), (''Real Estate'', Fin 10),
      (''Utilities'', Fin (1 / 2))]"

definition boundary_weights_b :: "(string \<times> fl) list" where
  "boundary_weights_b =
     [(''Information Technology'', Fin 30), (''Communication Services'', Fin 15),
      (''Consumer Discretionary'', Fin 15), (''Consumer Staples'', Fin 2),
      (''Health Care'', Fin 2), (''Financials'', Fin 0), (''Industrials'', Fin 0),
      (''Energy'', Fin 10), (''Materials'', Fin 10), (''Real Estate'', Fin 15),
      (''Utilities'', Fin 1)]"

definition boundary_weights_c :: "(string \<times> fl) list" where
  "boundary_weights_c =
     [(''Information Technology'', Fin 25), (''Communication Services'', Fin 10),
      (''Consumer Discretionary'', Fin 10), (''Consumer Staples'', Fin 4),
      (''Health Care'', Fin 4), (''Financials'', Fin 10), (''Industrials'', Fin 10),
      (''Energy'', Fin 10), (''Materials'', Fin 5), (''Real Estate'', Fin 10),
      (''Utilities'', Fin 2)]"

definition boundary_weights_d :: "(string \<times> fl) list" where
  "boundary_weights_d =
     [(''Information Technology'', Fin 41), (''Communication Services'', Fin 9),
      (''Consumer Discretionary'', Fin 10), (''Consumer Staples'', Fin 5),
      (''Health Care'', Fin 5), (''Financials'', Fin 5), (''Industrials'', Fin 5),
      (''Energy'', Fin 5), (''Materials'', Fin 5), (''Real Estate'', Fin 5),
      (''Utilities'', Fin 5)]"

definition it_group :: "string list" where
  "it_group = [''Information Technology'', ''Communication Services'', ''Consumer Discretionary'']"

text \<open>
  The weights of the module's example as the module writes them, Python ints, and the
  same with a negative weight.
\<close>

definition example_ints :: "(string \<times> pyval) list" where
  "example_ints =
     [(''Information Technology'', PyInt 28), (''Communication Services'', PyInt 12),
      (''Consumer Discretionary'', PyInt 10), (''Consumer Staples'', PyInt 6),
      (''Health Care'', PyInt 10), (''Financials'', PyInt 8), (''Industrials'', PyInt 10),
      (''Energy'', PyInt 5), (''Materials'', PyInt 4), (''Real Estate'', PyInt 4),
      (''Utilities'', PyInt 3)]"

definition negative_ints :: "(string \<times> pyval) list" where
  "negative_ints = example_ints[10 := (''Utilities'', PyInt (- 3))]"

text \<open>A portfolio whose six groups hold one sixth of the total each.\<close>

definition sixths_weights :: "(string \<times> fl) list" where
  "sixths_weights =
     [(''Information Technology'', Fin 2), (''Communication Services'', Fin 2),
      (''Consumer Discretionary'', Fin 2), (''Consumer Staples'', Fin 3),
      (''Health Care'', Fin 3), (''Financials'', Fin 3), (''Industrials'', Fin 3),
      (''Energy'', Fin 3), (''Materials'', Fin 3), (''Real Estate'', Fin 6),
      (''Utilities'', Fin 6)]"

section \<open>Notions used in the proofs\<close>

definition unvisited :: "bool list \<Rightarrow> nat" where
  "unvisited visited = length (filter (\<lambda>b. \<not> b) visited)"

text \<open>
  The indices that \<open>visited\<close> marks. Every index on the stack or in the component under
  construction is marked, and no index is in both; the loop keeps this.
\<close>

definition marked :: "bool list \<Rightarrow> nat set" where
  "marked visited = {v. v < length visited \<and> visited ! v}"

definition cc_inv :: "nat \<Rightarrow> bool list \<times> nat list list \<Rightarrow> bool" where
  "cc_inv n st = (length (fst st) = n \<and> distinct (concat (snd st))
      \<and> set (concat (snd st)) = marked (fst st) \<and> [] \<notin> set (snd st))"

definition dims :: "'a list list \<Rightarrow> nat \<Rightarrow> bool" where
  "dims m n = (length m = n \<and> (\<forall>row \<in> set m. length row = n))"

text \<open>Whether the portfolio holds both sectors of every pair of the table.\<close>

definition table_present :: "string list \<Rightarrow> bool" where
  "table_present sectors =
     list_all (\<lambda>p. fst p \<in> set sectors \<and> snd p \<in> set sectors) high_corr_pairs"

text \<open>The entries that one group adds to \<^verbatim>\<open>comp_infos\<close> and to \<^verbatim>\<open>corr_violations\<close>.\<close>

definition group_weight :: "string list \<Rightarrow> (string \<times> fl) list \<Rightarrow> nat list \<Rightarrow> fl" where
  "group_weight sectors ser c = pd_sum (map (\<lambda>l. the (map_of ser l)) (comp_sectors_of sectors c))"

definition group_info :: "string list \<Rightarrow> (string \<times> fl) list \<Rightarrow> rat list list \<Rightarrow> nat list \<Rightarrow> comp_info" where
  "group_info sectors ser cm c =
     \<lparr>members = comp_sectors_of sectors c, weight_sum = py_round (group_weight sectors ser c) 2,
      avg_corr = py_round (avg_corr_of cm c) 3\<rparr>"

definition group_violation :: "string list \<Rightarrow> (string \<times> fl) list \<Rightarrow> rat list list \<Rightarrow> nat list \<Rightarrow> violation list" where
  "group_violation sectors ser cm c =
     (case comp_violation (group_weight sectors ser c) of
        None \<Rightarrow> []
      | Some s \<Rightarrow> [\<lparr>members = comp_sectors_of sectors c,
                   weight_sum = py_round (group_weight sectors ser c) 2,
                   avg_corr = py_round (avg_corr_of cm c) 3, cluster_status = s\<rparr>])"

fun is_fin :: "fl \<Rightarrow> bool" where
  "is_fin (Fin q) = True"
| "is_fin x = False"

text \<open>
  A step keeps the first \<open>L\<close> objects of the store when it neither removes nor changes
  any of them; \<open>P\<close> is what is known of the value it returns.
\<close>

definition keeps :: "nat \<Rightarrow> 'a step \<Rightarrow> ('a \<Rightarrow> bool) \<Rightarrow> bool" where
  "keeps L m P = (\<forall>s. L \<le> length s \<longrightarrow>
     L \<le> length (fst (m s)) \<and> take L (fst (m s)) = take L s
     \<and> (\<forall>x. snd (m s) = Inr x \<longrightarrow> P x))"

text \<open>
  For the statements about binary64: the value of a finite float, the exact sum of an
  array, a float between two bounds, the unit roundoff, the exponent that fixes the
  unit in the last place, and the entry that step 0 computes for a weight \<open>q\<close> and a
  total \<open>s\<close>.
\<close>

fun fin_val :: "fl \<Rightarrow> rat" where
  "fin_val (Fin q) = q"
| "fin_val x = 0"

definition exact_sum :: "fl list \<Rightarrow> rat" where
  "exact_sum ws = sum_list (map fin_val ws)"

definition in_range :: "rat \<Rightarrow> rat \<Rightarrow> fl \<Rightarrow> bool" where
  "in_range lo hi w = (case w of Fin q \<Rightarrow> lo \<le> q \<and> q \<le> hi | _ \<Rightarrow> False)"

definition unit_roundoff :: rat where
  "unit_roundoff = 1 / 2 ^ 53"

definition ulp_exp :: "rat \<Rightarrow> int" where
  "ulp_exp q = max (exponent q) (- 1022)"

definition normalized_entry :: "rat \<Rightarrow> rat \<Rightarrow> rat" where
  "normalized_entry s q = round_pos (round_pos (q / s) * 100)"

section \<open>The search terminates\<close>

lemma unvisited_mark:
  "v < length visited \<Longrightarrow> \<not> visited ! v \<Longrightarrow> Suc (unvisited (visited[v := True])) = unvisited visited"
proof (induction visited arbitrary: v)
  case Nil
  then show ?case by simp
next
  case (Cons b bs)
  then show ?case by (cases v) (auto simp: unvisited_def)
qed

lemma scan_row_length: "length (fst (scan_row adj u st v)) = length (fst st)"
  by (cases st) (simp add: scan_row_def)

lemma scan_row_measure:
  assumes "v < length (fst st)"
  shows "2 * unvisited (fst (scan_row adj u st v)) + length (snd (scan_row adj u st v))
         \<le> 2 * unvisited (fst st) + length (snd st)"
proof (cases st)
  case (Pair visited stack)
  show ?thesis
  proof (cases "adj ! u ! v \<and> \<not> visited ! v")
    case True
    with assms Pair have "Suc (unvisited (visited[v := True])) = unvisited visited"
      by (simp add: unvisited_mark)
    with True Pair show ?thesis by (simp add: scan_row_def)
  next
    case False
    with Pair show ?thesis by (auto simp: scan_row_def)
  qed
qed

lemma fold_scan_row_length:
  "length (fst (foldl (scan_row adj u) st vs)) = length (fst st)"
  by (induction vs arbitrary: st) (simp_all add: scan_row_length)

lemma fold_scan_row_measure:
  "\<forall>v \<in> set vs. v < length (fst st) \<Longrightarrow>
   2 * unvisited (fst (foldl (scan_row adj u) st vs)) + length (snd (foldl (scan_row adj u) st vs))
   \<le> 2 * unvisited (fst st) + length (snd st)"
proof (induction vs arbitrary: st)
  case Nil
  then show ?case by simp
next
  case (Cons v vs)
  have "\<forall>w \<in> set vs. w < length (fst (scan_row adj u st v))"
    using Cons.prems by (simp add: scan_row_length)
  from Cons.IH [OF this] scan_row_measure [of v st adj u] Cons.prems
  show ?case by simp
qed

termination dfs_while
proof (relation "measure (\<lambda>(adj, visited, stack, cmp). 2 * unvisited visited + length stack)")
  show "wf (measure (\<lambda>(adj, visited, stack, cmp). 2 * unvisited visited + length stack))"
    by simp
next
  fix adj :: "bool list list" and visited :: "bool list" and stack cmp :: "nat list"
    and u st
  assume ne: "stack \<noteq> []" and u: "u = last stack"
    and st: "st = foldl (scan_row adj u) (visited, butlast stack) [0..<length visited]"
  have "2 * unvisited (fst st) + length (snd st) \<le> 2 * unvisited visited + length (butlast stack)"
    unfolding st using fold_scan_row_measure [of "[0..<length visited]" "(visited, butlast stack)" adj u]
    by simp
  moreover have "length (butlast stack) < length stack"
    using ne by (cases stack rule: rev_cases) simp_all
  ultimately show "((adj, fst st, snd st, cmp @ [u]), (adj, visited, stack, cmp))
        \<in> measure (\<lambda>(adj, visited, stack, cmp). 2 * unvisited visited + length stack)"
    by simp
qed

declare dfs_while.simps [simp del]

section \<open>The components partition the indices\<close>

lemma marked_update:
  "v < length visited \<Longrightarrow> marked (visited[v := True]) = insert v (marked visited)"
  by (auto simp: marked_def nth_list_update)

lemma marked_replicate: "marked (replicate n False) = {}"
  by (simp add: marked_def)

lemma marked_bound: "v \<in> marked visited \<Longrightarrow> v < length visited"
  by (simp add: marked_def)

lemma foldl_scan_row:
  assumes "\<forall>v \<in> set vs. v < length visited"
  shows "\<exists>vis' new. foldl (scan_row adj u) (visited, stack) vs = (vis', stack @ new)
           \<and> length vis' = length visited \<and> distinct new
           \<and> set new \<inter> marked visited = {} \<and> marked vis' = marked visited \<union> set new"
  using assms
proof (induction vs arbitrary: visited stack)
  case Nil
  then show ?case by simp
next
  case (Cons v vs)
  show ?case
  proof (cases "adj ! u ! v \<and> \<not> visited ! v")
    case True
    have v: "v < length visited" using Cons.prems by simp
    have "\<forall>w \<in> set vs. w < length (visited[v := True])" using Cons.prems by simp
    from Cons.IH [OF this, of "stack @ [v]"]
    obtain vis' new where
      f: "foldl (scan_row adj u) (visited[v := True], stack @ [v]) vs = (vis', (stack @ [v]) @ new)"
      and l: "length vis' = length (visited[v := True])" and d: "distinct new"
      and i: "set new \<inter> marked (visited[v := True]) = {}"
      and m: "marked vis' = marked (visited[v := True]) \<union> set new"
      by blast
    have vm: "v \<notin> marked visited" using True by (simp add: marked_def)
    have "foldl (scan_row adj u) (visited, stack) (v # vs) = (vis', stack @ (v # new))"
      using True f by (simp add: scan_row_def)
    moreover have "distinct (v # new)" using d i v by (auto simp: marked_update)
    moreover have "set (v # new) \<inter> marked visited = {}"
      using i vm v by (auto simp: marked_update)
    moreover have "marked vis' = marked visited \<union> set (v # new)"
      using m v by (auto simp: marked_update)
    ultimately show ?thesis using l by (intro exI [of _ vis'] exI [of _ "v # new"]) simp
  next
    case False
    have "\<forall>w \<in> set vs. w < length visited" using Cons.prems by simp
    from Cons.IH [OF this, of stack] False show ?thesis
      by (auto simp: scan_row_def)
  qed
qed

lemma dfs_while_correct:
  assumes "distinct (cmp @ stack)" and "set cmp \<union> set stack \<subseteq> marked visited"
  shows "length (fst (dfs_while adj visited stack cmp)) = length visited
       \<and> distinct (snd (dfs_while adj visited stack cmp))
       \<and> marked visited \<subseteq> marked (fst (dfs_while adj visited stack cmp))
       \<and> set (snd (dfs_while adj visited stack cmp))
           = set cmp \<union> set stack \<union> (marked (fst (dfs_while adj visited stack cmp)) - marked visited)"
  using assms
proof (induction adj visited stack cmp rule: dfs_while.induct)
  case (1 adj visited stack cmp)
  show ?case
  proof (cases "stack = []")
    case True
    with "1.prems" show ?thesis by (simp add: dfs_while.simps)
  next
    case False
    define u where "u = last stack"
    define st where "st = foldl (scan_row adj u) (visited, butlast stack) [0..<length visited]"
    have split: "butlast stack @ [u] = stack" using False by (simp add: u_def)
    from foldl_scan_row [of "[0..<length visited]" visited adj u "butlast stack"]
    obtain vis1 new where
      f: "st = (vis1, butlast stack @ new)" and l: "length vis1 = length visited"
      and d: "distinct new" and i: "set new \<inter> marked visited = {}"
      and m: "marked vis1 = marked visited \<union> set new"
      unfolding st_def by auto
    have sets: "set stack = insert u (set (butlast stack))"
      using split by (metis list.simps(15) rotate1.simps(2) set_rotate1)
    have dst: "distinct (butlast stack @ [u])" "distinct cmp" "set cmp \<inter> set stack = {}"
      using "1.prems"(1) split by auto
    have p1: "distinct ((cmp @ [u]) @ snd st)"
      using dst d i "1.prems"(2) sets unfolding f by auto
    have p2: "set (cmp @ [u]) \<union> set (snd st) \<subseteq> marked (fst st)"
      using "1.prems"(2) sets m unfolding f by auto
    have unf: "dfs_while adj visited stack cmp = dfs_while adj (fst st) (snd st) (cmp @ [u])"
      using False by (subst dfs_while.simps) (simp add: u_def st_def Let_def)
    note IH = "1.IH" [OF False u_def st_def p1 p2]
    show ?thesis
      unfolding unf using IH l m i sets unfolding f by auto
  qed
qed

lemma cc_step_inv:
  assumes "cc_inv n st" and "i < n"
  shows "cc_inv n (cc_step adj st i) \<and> i \<in> marked (fst (cc_step adj st i))
       \<and> marked (fst st) \<subseteq> marked (fst (cc_step adj st i))"
proof (cases st)
  case (Pair visited comps)
  from assms(1) have len: "length visited = n" and dc: "distinct (concat comps)"
    and sc: "set (concat comps) = marked visited" and ne: "[] \<notin> set comps"
    unfolding Pair cc_inv_def by simp_all
  show ?thesis
  proof (cases "visited ! i")
    case True
    then have "cc_step adj st i = st" by (simp add: Pair cc_step_def)
    moreover have "i \<in> marked visited" using True assms(2) len by (simp add: marked_def)
    ultimately show ?thesis using assms(1) Pair by simp
  next
    case False
    define r where "r = dfs_while adj (visited[i := True]) [i] []"
    have i: "i < length visited" using assms(2) len by simp
    have "set [] \<union> set [i] \<subseteq> marked (visited[i := True])"
      using i by (simp add: marked_update)
    from dfs_while_correct [OF _ this, of adj]
    have rl: "length (fst r) = length visited" and rd: "distinct (snd r)"
      and rm: "insert i (marked visited) \<subseteq> marked (fst r)"
      and rs: "set (snd r) = {i} \<union> (marked (fst r) - insert i (marked visited))"
      unfolding r_def using i by (simp_all add: marked_update)
    have step: "cc_step adj (visited, comps) i = (fst r, comps @ [snd r])"
      using False by (simp add: cc_step_def r_def Let_def)
    have im: "i \<notin> marked visited" using False by (simp add: marked_def)
    have "snd r \<noteq> []" using rs by auto
    moreover have "distinct (concat (comps @ [snd r]))"
      using dc rd rs sc im by auto
    moreover have "set (concat (comps @ [snd r])) = marked (fst r)"
      using sc rs rm by auto
    ultimately have "cc_inv n (fst r, comps @ [snd r])"
      using rl len ne by (simp add: cc_inv_def) 
    then show ?thesis unfolding Pair step using rm by auto
  qed
qed

lemma foldl_cc_step_inv:
  assumes "cc_inv n st" and "\<forall>i \<in> set is. i < n"
  shows "cc_inv n (foldl (cc_step adj) st is)
       \<and> set is \<union> marked (fst st) \<subseteq> marked (fst (foldl (cc_step adj) st is))"
  using assms
proof (induction "is" arbitrary: st)
  case Nil
  then show ?case by simp
next
  case (Cons i "is")
  from cc_step_inv [OF Cons.prems(1), of i adj] Cons.prems(2)
  have a: "cc_inv n (cc_step adj st i)" and b: "i \<in> marked (fst (cc_step adj st i))"
    and c: "marked (fst st) \<subseteq> marked (fst (cc_step adj st i))"
    by simp_all
  from Cons.IH [OF a] Cons.prems(2) b c show ?case by auto
qed

lemma connected_components_partition:
  assumes "\<not> (\<exists>row \<in> set adj. length row < length adj)"
  shows "\<exists>comps. connected_components_from_adj adj = Inr comps
          \<and> distinct (concat comps) \<and> set (concat comps) = {0..<length adj}
          \<and> [] \<notin> set comps"
proof -
  define n where "n = length adj"
  define st where "st = foldl (cc_step adj) (replicate n False, []) [0..<n]"
  have "cc_inv n (replicate n False, [])"
    by (simp add: cc_inv_def marked_replicate)
  from foldl_cc_step_inv [OF this, of "[0..<n]" adj]
  have inv: "cc_inv n st" and sub: "{0..<n} \<subseteq> marked (fst st)"
    unfolding st_def by auto
  have "marked (fst st) \<subseteq> {0..<n}"
    using inv marked_bound [of _ "fst st"] by (auto simp: cc_inv_def)
  with sub have "marked (fst st) = {0..<n}" by auto
  with inv have "distinct (concat (snd st)) \<and> set (concat (snd st)) = {0..<n} \<and> [] \<notin> set (snd st)"
    by (simp add: cc_inv_def)
  moreover have "connected_components_from_adj adj = Inr (snd st)"
    using assms by (simp add: connected_components_from_adj_def st_def n_def Let_def)
  ultimately show ?thesis unfolding n_def by blast
qed

section \<open>When the evaluation fails and what it returns\<close>

lemma ebind_Inr [simp]: "ebind (Inr x) f = f x"
  by (simp add: ebind_def)

lemma ebind_Inl [simp]: "ebind (Inl e) f = Inl e"
  by (simp add: ebind_def)

lemma ebind_eq_Inr: "ebind m f = Inr y \<longleftrightarrow> (\<exists>x. m = Inr x \<and> f x = Inr y)"
  by (cases m) simp_all

lemma index_from_absent: "x \<notin> set xs \<Longrightarrow> index_from i xs x = Inl ValueError"
  by (induction xs arbitrary: i) auto

lemma index_from_present:
  "x \<in> set xs \<Longrightarrow> \<exists>k<length xs. index_from i xs x = Inr (i + k) \<and> xs ! k = x"
proof (induction xs arbitrary: i)
  case Nil
  then show ?case by simp
next
  case (Cons y ys)
  show ?case
  proof (cases "y = x")
    case True
    then show ?thesis by (intro exI [of _ 0]) simp
  next
    case False
    with Cons.prems have "x \<in> set ys" by simp
    from Cons.IH [OF this, of "Suc i"] obtain k where
      "k < length ys" "index_from (Suc i) ys x = Inr (Suc i + k)" "ys ! k = x" by blast
    with False show ?thesis by (intro exI [of _ "Suc k"]) simp
  qed
qed

lemma list_index_absent: "x \<notin> set xs \<Longrightarrow> list_index xs x = Inl ValueError"
  by (simp add: list_index_def index_from_absent)

lemma list_index_present:
  "x \<in> set xs \<Longrightarrow> \<exists>k<length xs. list_index xs x = Inr k \<and> xs ! k = x"
  using index_from_present [of x xs 0] by (simp add: list_index_def)

lemma dims_identity: "dims (identity_matrix n) n"
  by (auto simp: dims_def identity_matrix_def)

lemma dims_mat_set: "dims m n \<Longrightarrow> dims (mat_set m i j v) n"
proof -
  assume d: "dims m n"
  show ?thesis
  proof (cases "i < length m")
    case True
    have "set (m[i := (m ! i)[j := v]]) \<subseteq> insert ((m ! i)[j := v]) (set m)"
      by (rule set_update_subset_insert)
    moreover have "length ((m ! i)[j := v]) = n" using d True by (simp add: dims_def)
    ultimately show ?thesis using d by (auto simp: dims_def mat_set_def)
  next
    case False
    then show ?thesis using d by (simp add: mat_set_def list_update_beyond)
  qed
qed

lemma set_pairs_ok:
  "list_all (\<lambda>p. fst p \<in> set sectors \<and> snd p \<in> set sectors) ps \<Longrightarrow> dims m n \<Longrightarrow>
   \<exists>m'. set_pairs sectors ps m = Inr m' \<and> dims m' n"
proof (induction ps arbitrary: m)
  case Nil
  then show ?case by simp
next
  case (Cons p ps)
  obtain s1 s2 where p: "p = (s1, s2)" by (cases p)
  from Cons.prems p obtain i j where
    "list_index sectors s1 = Inr i" "list_index sectors s2 = Inr j"
    using list_index_present [of s1 sectors] list_index_present [of s2 sectors] by auto
  moreover have "dims (mat_set (mat_set m i j (7 / 10)) j i (7 / 10)) n"
    using Cons.prems(2) by (simp add: dims_mat_set)
  moreover have "list_all (\<lambda>p. fst p \<in> set sectors \<and> snd p \<in> set sectors) ps"
    using Cons.prems(1) by simp
  ultimately show ?case using Cons.IH p by simp
qed

lemma set_pairs_error: "set_pairs sectors ps m = Inl e \<Longrightarrow> e = ValueError"
proof (induction ps arbitrary: m)
  case Nil
  then show ?case by simp
next
  case (Cons p ps)
  obtain s1 s2 where p: "p = (s1, s2)" by (cases p)
  show ?case
  proof (cases "s1 \<in> set sectors \<and> s2 \<in> set sectors")
    case True
    then obtain i j where
      "list_index sectors s1 = Inr i" "list_index sectors s2 = Inr j"
      using list_index_present [of s1 sectors] list_index_present [of s2 sectors] by auto
    with Cons p show ?thesis by simp
  next
    case False
    then have "set_pairs sectors (p # ps) m = Inl ValueError"
      using list_index_present [of s1 sectors]
      by (cases "s1 \<in> set sectors") (auto simp: p list_index_absent)
    with Cons.prems show ?thesis by simp
  qed
qed

lemma set_pairs_fail:
  "\<not> list_all (\<lambda>p. fst p \<in> set sectors \<and> snd p \<in> set sectors) ps \<Longrightarrow>
   set_pairs sectors ps m = Inl ValueError"
proof (induction ps arbitrary: m)
  case Nil
  then show ?case by simp
next
  case (Cons p ps)
  obtain s1 s2 where p: "p = (s1, s2)" by (cases p)
  show ?case
  proof (cases "s1 \<in> set sectors \<and> s2 \<in> set sectors")
    case True
    then obtain i j where
      "list_index sectors s1 = Inr i" "list_index sectors s2 = Inr j"
      using list_index_present [of s1 sectors] list_index_present [of s2 sectors] by auto
    moreover have "\<not> list_all (\<lambda>p. fst p \<in> set sectors \<and> snd p \<in> set sectors) ps"
      using Cons.prems True p by simp
    ultimately show ?thesis using Cons.IH p by simp
  next
    case False
    then show ?thesis
      using list_index_present [of s1 sectors]
      by (cases "s1 \<in> set sectors") (auto simp: p list_index_absent)
  qed
qed

lemma dims_adjacency: "dims m n \<Longrightarrow> dims (adjacency m) n"
  by (auto simp: dims_def adjacency_def threshold_matrix_def astype_bool_def fill_diagonal_def Let_def)

lemma correlation_groups_ok:
  assumes "table_present sectors"
  shows "\<exists>corr_matrix comps. correlation_groups sectors = Inr (corr_matrix, comps)
          \<and> dims corr_matrix (length sectors)
          \<and> distinct (concat comps) \<and> set (concat comps) = {0..<length sectors}
          \<and> [] \<notin> set comps"
proof -
  from set_pairs_ok [OF assms [unfolded table_present_def] dims_identity]
  obtain cm where cm: "corr_matrix_of sectors = Inr cm" and d: "dims cm (length sectors)"
    unfolding corr_matrix_of_def by blast
  have da: "dims (adjacency cm) (length sectors)" using d by (rule dims_adjacency)
  then have "\<not> (\<exists>row \<in> set (adjacency cm). length row < length (adjacency cm))"
    by (auto simp: dims_def)
  from connected_components_partition [OF this] da
  obtain comps where "connected_components_from_adj (adjacency cm) = Inr comps"
    "distinct (concat comps)" "set (concat comps) = {0..<length sectors}" "[] \<notin> set comps"
    by (auto simp: dims_def)
  with cm d show ?thesis by (simp add: correlation_groups_def)
qed

lemma correlation_groups_fail:
  "\<not> table_present sectors \<Longrightarrow> correlation_groups sectors = Inl ValueError"
  by (simp add: correlation_groups_def corr_matrix_of_def table_present_def set_pairs_fail)

lemma series_loc_ok:
  "set ls \<subseteq> fst ` set ser \<Longrightarrow> series_loc ser ls = Inr (map (\<lambda>l. the (map_of ser l)) ls)"
proof (induction ls)
  case Nil
  then show ?case by simp
next
  case (Cons l ls)
  then have "map_of ser l \<noteq> None" by (simp add: map_of_eq_None_iff)
  with Cons show ?case by auto
qed

lemma series_loc_error: "series_loc ser ls = Inl e \<Longrightarrow> e = KeyError"
  by (induction ls arbitrary: e) (auto split: option.splits sum.splits simp: ebind_def)

lemma length_normalize [simp]: "length (normalize_weights ws) = length ws"
  by (simp add: normalize_weights_def Let_def)

lemma keys_zip: "length xs = length ys \<Longrightarrow> fst ` set (zip xs ys) = set xs"
  by (metis list.set_map map_fst_zip)

lemma comp_weight_of_ok:
  assumes "\<forall>i \<in> set c. i < length sectors" and "set sectors \<subseteq> fst ` set ser"
  shows "comp_weight_of ser (comp_sectors_of sectors c) = Inr (group_weight sectors ser c)"
proof -
  have "set (comp_sectors_of sectors c) \<subseteq> fst ` set ser"
    using assms by (auto simp: comp_sectors_of_def)
  then show ?thesis by (simp add: comp_weight_of_def series_loc_ok group_weight_def)
qed

lemma comp_loop_ok:
  assumes "\<forall>c \<in> set comps. \<forall>i \<in> set c. i < length sectors" and "set sectors \<subseteq> fst ` set ser"
  shows "comp_loop sectors ser cm comps acc =
           Inr (fst acc @ map (group_info sectors ser cm) comps,
                snd acc @ concat (map (group_violation sectors ser cm) comps))"
  using assms(1)
proof (induction comps arbitrary: acc)
  case Nil
  then show ?case by simp
next
  case (Cons c cs)
  have w: "comp_weight_of ser (comp_sectors_of sectors c) = Inr (group_weight sectors ser c)"
    using Cons.prems assms(2) by (simp add: comp_weight_of_ok)
  have "\<forall>c \<in> set cs. \<forall>i \<in> set c. i < length sectors" using Cons.prems by simp
  note IH = Cons.IH [OF this]
  show ?case
    by (simp add: w Let_def IH group_info_def group_violation_def split: option.splits)
qed

lemma comp_loop_error: "comp_loop sectors ser cm comps acc = Inl e \<Longrightarrow> e = KeyError"
proof (induction comps arbitrary: acc)
  case Nil
  then show ?case by simp
next
  case (Cons c cs)
  then show ?case
    by (auto simp: Let_def comp_weight_of_def ebind_def split: sum.splits dest: series_loc_error)
qed

lemma argmax_loop_bound:
  "mi < i \<Longrightarrow> argmax_loop mi mp i xs < i + length xs \<or> argmax_loop mi mp i xs = mi"
proof (induction xs arbitrary: mi mp i)
  case Nil
  then show ?case by simp
next
  case (Cons x xs)
  from Cons.IH [of i "Suc i" x] Cons.IH [of mi "Suc i" mp] Cons.prems
  show ?case by auto
qed

lemma np_argmax_ok: "ws \<noteq> [] \<Longrightarrow> \<exists>i<length ws. np_argmax ws = Inr i"
proof (cases ws)
  case Nil
  assume "ws \<noteq> []"
  with Nil show ?thesis by simp
next
  case (Cons x xs)
  from argmax_loop_bound [of 0 1 x xs] show ?thesis
    by (auto simp: np_argmax_def Cons)
qed

lemma np_argmax_empty: "np_argmax [] = Inl ValueError"
  by (simp add: np_argmax_def)

lemma rule1_empty: "rule1 sectors [] = Inl ValueError"
  by (simp add: rule1_def np_argmax_empty)

lemma rule1_ok:
  "ws \<noteq> [] \<Longrightarrow> \<exists>i<length ws. np_argmax ws = Inr i \<and> rule1 sectors ws =
     Inr \<lparr>rule_no = 1, status = rule1_status (ws ! i), sector = Some (sectors ! i),
          val = Some (py_round (ws ! i) 2), components = None, violations = None,
          message = Single_sector_msg (sectors ! i) (ws ! i)\<rparr>"
  using np_argmax_ok [of ws] by (auto simp: rule1_def Let_def)

lemma rule2_ok:
  assumes "table_present sectors" and "set sectors \<subseteq> fst ` set ser"
  shows "\<exists>cm comps. correlation_groups sectors = Inr (cm, comps) \<and> rule2 sectors ser =
     Inr \<lparr>rule_no = 2, status = ANALYZED, sector = None, val = None,
          components = Some (map (group_info sectors ser cm) comps),
          violations = Some (concat (map (group_violation sectors ser cm) comps)),
          message = Corr_groups_msg (length comps)\<rparr>"
proof -
  from correlation_groups_ok [OF assms(1)] obtain cm comps where
    g: "correlation_groups sectors = Inr (cm, comps)"
    and s: "set (concat comps) = {0..<length sectors}" by blast
  have "\<forall>c \<in> set comps. \<forall>i \<in> set c. i < length sectors"
    using s by auto
  from comp_loop_ok [OF this assms(2), of cm "([], [])"] g
  show ?thesis by (simp add: rule2_def rule2_finding_def)
qed

lemma rule2_fail: "\<not> table_present sectors \<Longrightarrow> rule2 sectors ser = Inl ValueError"
  by (simp add: rule2_def correlation_groups_fail)

lemma defensive_sum_ok:
  "set sectors \<subseteq> fst ` set ser \<Longrightarrow> \<exists>d. defensive_sum_of sectors ser = Inr d"
  by (simp add: defensive_sum_of_def series_loc_ok subset_iff)

lemma reit_sum_ok:
  "set sectors \<subseteq> fst ` set ser \<Longrightarrow> \<exists>d. reit_sum_of sectors ser = Inr d"
  by (simp add: reit_sum_of_def series_loc_ok subset_iff Let_def)

lemma em_sum_ok:
  "set sectors \<subseteq> fst ` set ser \<Longrightarrow> \<exists>d. em_sum_of sectors ser = Inr d"
  by (simp add: em_sum_of_def series_loc_ok subset_iff Let_def)

lemma check_empty: "check_portfolio_rules [] verbose now = Inl ValueError"
  by (simp add: check_portfolio_rules_def normalize_weights_def rule1_empty)

lemma check_missing:
  assumes "\<not> table_present (map fst sw)"
  shows "check_portfolio_rules sw verbose now = Inl ValueError"
proof (cases "sw = []")
  case True
  then show ?thesis by (simp add: check_empty)
next
  case False
  then have "normalize_weights (map snd sw) \<noteq> []" by (simp add: normalize_weights_def Let_def)
  from rule1_ok [OF this, of "map fst sw"] obtain c1 where
    "rule1 (map fst sw) (normalize_weights (map snd sw)) = Inr c1" by blast
  with rule2_fail [OF assms] show ?thesis
    by (simp add: check_portfolio_rules_def Let_def)
qed

text \<open>What a returned report is made of.\<close>

lemma check_Inr:
  assumes "check_portfolio_rules sw verbose now = Inr (rep, out)"
  shows "\<exists>c1 c2 c3 c4 c5.
      rule1 (map fst sw) (normalize_weights (map snd sw)) = Inr c1
    \<and> rule2 (map fst sw) (zip (map fst sw) (normalize_weights (map snd sw))) = Inr c2
    \<and> rule3 (map fst sw) (zip (map fst sw) (normalize_weights (map snd sw))) = Inr c3
    \<and> rule4 (map fst sw) (zip (map fst sw) (normalize_weights (map snd sw))) = Inr c4
    \<and> rule5 (map fst sw) (zip (map fst sw) (normalize_weights (map snd sw))) = Inr c5
    \<and> rep = \<lparr>timestamp = now @ ''Z'',
              input_weights = zip (map fst sw) (normalize_weights (map snd sw)),
              checks = [c1, c2, c3, c4, c5], summary = summarize [c1, c2, c3, c4, c5]\<rparr>
    \<and> out = (if verbose
              then verbose_trace (map fst sw) (normalize_weights (map snd sw)) [c1, c2, c3, c4, c5]
              else [])"
  using assms unfolding check_portfolio_rules_def finish_report_def Let_def ebind_eq_Inr by auto

lemma keys_series: "fst ` set (zip (map fst sw) (normalize_weights (map snd sw))) = set (map fst sw)"
  by (rule keys_zip) simp

lemma check_ok:
  assumes "sw \<noteq> []" and "table_present (map fst sw)"
  shows "\<exists>rep out. check_portfolio_rules sw verbose now = Inr (rep, out) \<and> length (checks rep) = 5"
proof -
  let ?sectors = "map fst sw" and ?ws = "normalize_weights (map snd sw)"
  let ?ser = "zip ?sectors ?ws"
  have k: "set ?sectors \<subseteq> fst ` set ?ser" using keys_series [of sw] by simp
  have "?ws \<noteq> []" using assms(1) by (simp add: normalize_weights_def Let_def)
  from rule1_ok [OF this, of ?sectors] obtain c1 where c1: "rule1 ?sectors ?ws = Inr c1" by blast
  from rule2_ok [OF assms(2) k] obtain c2 where c2: "rule2 ?sectors ?ser = Inr c2" by blast
  from defensive_sum_ok [OF k] obtain c3 where c3: "rule3 ?sectors ?ser = Inr c3"
    by (auto simp: rule3_def)
  from reit_sum_ok [OF k] obtain c4 where c4: "rule4 ?sectors ?ser = Inr c4"
    by (auto simp: rule4_def)
  from em_sum_ok [OF k] obtain c5 where c5: "rule5 ?sectors ?ser = Inr c5"
    by (auto simp: rule5_def)
  show ?thesis by (simp add: check_portfolio_rules_def finish_report_def Let_def c1 c2 c3 c4 c5)
qed

lemma check_error: "check_portfolio_rules sw verbose now = Inl e \<Longrightarrow> e = ValueError"
proof (cases "sw \<noteq> [] \<and> table_present (map fst sw)")
  case True
  assume "check_portfolio_rules sw verbose now = Inl e"
  with check_ok [of sw verbose now] True show ?thesis by auto
next
  case False
  assume e: "check_portfolio_rules sw verbose now = Inl e"
  from False have "check_portfolio_rules sw verbose now = Inl ValueError"
    using check_empty check_missing by blast
  with e show ?thesis by simp
qed

section \<open>Finite weights: exact sums\<close>

lemma is_fin_iff: "is_fin w \<longleftrightarrow> (\<exists>q. w = Fin q)"
  by (cases w) simp_all

lemma all_fin_map: "(\<forall>w \<in> set ws. is_fin w) \<Longrightarrow> \<exists>qs. ws = map Fin qs"
proof (induction ws)
  case Nil
  then show ?case by simp
next
  case (Cons w ws)
  then obtain q qs where "w = Fin q" "ws = map Fin qs" by (auto simp: is_fin_iff)
  then have "w # ws = map Fin (q # qs)" by simp
  then show ?case by (rule exI [of _ "q # qs"])
qed

lemma foldl_fadd_fin: "foldl fadd (Fin a) (map Fin qs) = Fin (a + sum_list qs)"
  by (induction qs arbitrary: a) (simp_all add: add.assoc)

lemma np_sum_fin: "np_sum (map Fin qs) = Fin (sum_list qs)"
  by (simp add: np_sum_def foldl_fadd_fin)

lemma pd_sum_fin: "pd_sum (map Fin qs) = Fin (sum_list qs)"
proof -
  have "filter (\<lambda>x. x \<noteq> NaN) (map Fin qs) = map Fin qs" by (induction qs) simp_all
  then show ?thesis by (simp add: pd_sum_def np_sum_fin)
qed

lemma normalize_fin:
  "sum_list qs \<noteq> 0 \<Longrightarrow>
   normalize_weights (map Fin qs) = map (\<lambda>q. Fin (q / sum_list qs * 100)) qs"
  by (simp add: normalize_weights_def np_sum_fin Let_def)

lemma sum_list_scaled: "sum_list (map (\<lambda>q. q / s * c) qs) = sum_list qs / s * (c::rat)"
  by (induction qs) (simp_all add: add_divide_distrib distrib_right)

lemma normalize_total:
  "sum_list qs \<noteq> 0 \<Longrightarrow> np_sum (normalize_weights (map Fin qs)) = Fin 100"
proof -
  assume s: "sum_list qs \<noteq> 0"
  have "normalize_weights (map Fin qs) = map Fin (map (\<lambda>q. q / sum_list qs * 100) qs)"
    using s by (simp add: normalize_fin)
  then show ?thesis using s by (simp only: np_sum_fin sum_list_scaled) simp
qed

text \<open>
  In the exact arithmetic a series that sums to 100 is returned unchanged by step 0.
  Of the program's 64-bit floats this is false, since the quotient and the product are
  each rounded: \<^verbatim>\<open>28.0 / 100.0 * 100\<close> is \<^verbatim>\<open>28.000000000000004\<close> (claim C8).
\<close>

lemma foldl_fadd_fin_result:
  "foldl fadd acc ws = Fin t \<Longrightarrow> is_fin acc \<and> (\<forall>w \<in> set ws. is_fin w)"
proof (induction ws arbitrary: acc)
  case Nil
  then show ?case by simp
next
  case (Cons w ws)
  then have "is_fin (fadd acc w)" "\<forall>x \<in> set ws. is_fin x" by auto
  moreover from this(1) have "is_fin acc \<and> is_fin w" by (cases acc; cases w) simp_all
  ultimately show ?case by simp
qed

lemma normalize_exact_fixed_point:
  assumes "np_sum ws = Fin 100"
  shows "normalize_weights ws = ws"
proof -
  from assms have "\<forall>w \<in> set ws. is_fin w"
    using foldl_fadd_fin_result [of "Fin 0" ws 100] by (simp add: np_sum_def)
  from all_fin_map [OF this] obtain qs where qs: "ws = map Fin qs" by blast
  with assms have "sum_list qs = 100" by (simp add: np_sum_fin)
  then show ?thesis unfolding qs by (simp add: normalize_fin)
qed

section \<open>The groups of rule 2\<close>

lemma mset_indices: "distinct xs \<Longrightarrow> set xs = {0..<n} \<Longrightarrow> mset xs = mset [0..<n]"
  using set_eq_iff_mset_eq_distinct [of xs "[0..<n]"] by simp

lemma distinct_concat_unique:
  "distinct (concat xss) \<Longrightarrow> i < length xss \<Longrightarrow> j < length xss \<Longrightarrow>
   x \<in> set (xss ! i) \<Longrightarrow> x \<in> set (xss ! j) \<Longrightarrow> i = j"
proof (induction xss arbitrary: i j)
  case Nil
  then show ?case by simp
next
  case (Cons xs xss)
  show ?case
  proof (cases i)
    case 0
    show ?thesis
    proof (cases j)
      case 0
      with \<open>i = 0\<close> show ?thesis by simp
    next
      case (Suc j')
      with Cons.prems \<open>i = 0\<close> have "x \<in> set xs" "x \<in> set (concat xss)" by auto
      with Cons.prems(1) show ?thesis by auto
    qed
  next
    case (Suc i')
    show ?thesis
    proof (cases j)
      case 0
      with Cons.prems Suc have "x \<in> set xs" "x \<in> set (concat xss)" by auto
      with Cons.prems(1) show ?thesis by auto
    next
      case (Suc j')
      with Cons.prems \<open>i = Suc i'\<close> Cons.IH [of i' j'] show ?thesis by simp
    qed
  qed
qed

lemma map_of_zip_nth:
  "length xs = length ys \<Longrightarrow> distinct xs \<Longrightarrow> i < length ys \<Longrightarrow>
   map_of (zip xs ys) (xs ! i) = Some (ys ! i)"
proof (induction xs ys arbitrary: i rule: list_induct2)
  case Nil
  then show ?case by simp
next
  case (Cons x xs y ys)
  then show ?case by (cases i) auto
qed

lemma members_group_info [simp]:
  "members (group_info sectors ser cm c) = comp_sectors_of sectors c"
  by (simp add: group_info_def)

lemma group_weight_fin:
  assumes "distinct sectors" and "length qs = length sectors" and "\<forall>i \<in> set c. i < length sectors"
  shows "group_weight sectors (zip sectors (map Fin qs)) c = Fin (sum_list (map (\<lambda>i. qs ! i) c))"
proof -
  have "map (\<lambda>l. the (map_of (zip sectors (map Fin qs)) l)) (comp_sectors_of sectors c)
        = map Fin (map (\<lambda>i. qs ! i) c)"
    using assms by (auto simp: comp_sectors_of_def map_of_zip_nth)
  then show ?thesis unfolding group_weight_def by (simp only: pd_sum_fin)
qed

lemma sum_over_partition:
  assumes "distinct (concat comps)" and "set (concat comps) = {0..<length qs}"
  shows "sum_list (map (\<lambda>c. sum_list (map (\<lambda>i. qs ! i) c)) comps) = sum_list (qs :: rat list)"
proof -
  have "sum_list (map (\<lambda>c. sum_list (map (\<lambda>i. qs ! i) c)) comps)
        = sum_list (map (\<lambda>i. qs ! i) (concat comps))"
    by (induction comps) simp_all
  also have "\<dots> = sum_mset (image_mset (\<lambda>i. qs ! i) (mset (concat comps)))"
    by (metis mset_map sum_mset_sum_list)
  also have "mset (concat comps) = mset [0..<length qs]"
    using assms by (rule mset_indices)
  also have "sum_mset (image_mset (\<lambda>i. qs ! i) (mset [0..<length qs]))
             = sum_list (map (\<lambda>i. qs ! i) [0..<length qs])"
    by (metis mset_map sum_mset_sum_list)
  also have "map (\<lambda>i. qs ! i) [0..<length qs] = qs" by (rule map_nth)
  finally show ?thesis .
qed

lemma rule2_Inr:
  assumes "rule2 sectors ser = Inr c2" and "set sectors \<subseteq> fst ` set ser"
  shows "\<exists>cm comps. correlation_groups sectors = Inr (cm, comps)
     \<and> distinct (concat comps) \<and> set (concat comps) = {0..<length sectors} \<and> [] \<notin> set comps
     \<and> components c2 = Some (map (group_info sectors ser cm) comps)
     \<and> violations c2 = Some (concat (map (group_violation sectors ser cm) comps))"
proof -
  have tp: "table_present sectors"
    using assms(1) rule2_fail [of sectors ser] by (cases "table_present sectors") simp_all
  from correlation_groups_ok [OF tp] obtain cm comps where
    g: "correlation_groups sectors = Inr (cm, comps)"
    and p: "distinct (concat comps)" "set (concat comps) = {0..<length sectors}" "[] \<notin> set comps"
    by blast
  from rule2_ok [OF tp assms(2)] g assms(1) have
    "c2 = \<lparr>rule_no = 2, status = ANALYZED, sector = None, val = None,
          components = Some (map (group_info sectors ser cm) comps),
          violations = Some (concat (map (group_violation sectors ser cm) comps)),
          message = Corr_groups_msg (length comps)\<rparr>"
    by auto
  with g p show ?thesis by simp
qed

section \<open>The statuses at the thresholds\<close>

lemma argmax_loop_fin:
  "mi < length pre \<Longrightarrow> pre ! mi = m \<Longrightarrow> \<forall>x \<in> set pre. x \<le> m \<Longrightarrow>
   argmax_loop mi (Fin m) (length pre) (map Fin xs) < length (pre @ xs)
   \<and> (\<forall>x \<in> set (pre @ xs). x \<le> (pre @ xs) ! argmax_loop mi (Fin m) (length pre) (map Fin xs))"
proof (induction xs arbitrary: pre mi m)
  case Nil
  then show ?case by simp
next
  case (Cons x xs)
  show ?case
  proof (cases "m < x")
    case True
    have "length pre < length (pre @ [x])" "(pre @ [x]) ! length pre = x"
      "\<forall>y \<in> set (pre @ [x]). y \<le> x"
      using Cons.prems True by auto
    from Cons.IH [OF this] True show ?thesis by simp
  next
    case False
    have "mi < length (pre @ [x])" "(pre @ [x]) ! mi = m" "\<forall>y \<in> set (pre @ [x]). y \<le> m"
      using Cons.prems False by (auto simp: nth_append)
    from Cons.IH [OF this] False show ?thesis by simp
  qed
qed

lemma np_argmax_fin:
  assumes "qs \<noteq> []"
  shows "\<exists>i<length qs. np_argmax (map Fin qs) = Inr i \<and> (\<forall>x \<in> set qs. x \<le> qs ! i)"
proof -
  from assms obtain q qs' where q: "qs = q # qs'" by (cases qs) auto
  from argmax_loop_fin [of 0 "[q]" q qs'] show ?thesis
    by (simp add: q np_argmax_def)
qed

lemma rule1_fin:
  assumes "rule1 sectors (map Fin qs) = Inr c1"
  shows "\<exists>i<length qs. status c1 = rule1_status (Fin (qs ! i)) \<and> (\<forall>x \<in> set qs. x \<le> qs ! i)"
proof -
  have "qs \<noteq> []" using assms by (auto simp: rule1_empty)
  from np_argmax_fin [OF this] obtain i where
    "i < length qs" "np_argmax (map Fin qs) = Inr i" "\<forall>x \<in> set qs. x \<le> qs ! i" by blast
  with assms show ?thesis by (auto simp: rule1_def Let_def)
qed

lemma rule3_Inr:
  "rule3 sectors ser = Inr c \<Longrightarrow> \<exists>d. defensive_sum_of sectors ser = Inr d \<and> status c = rule3_status d"
  by (auto simp: rule3_def ebind_eq_Inr)

lemma rule4_Inr:
  "rule4 sectors ser = Inr c \<Longrightarrow> \<exists>d. reit_sum_of sectors ser = Inr d \<and> status c = rule4_status d"
  by (auto simp: rule4_def ebind_eq_Inr)

lemma rule5_Inr:
  "rule5 sectors ser = Inr c \<Longrightarrow> \<exists>d. em_sum_of sectors ser = Inr d \<and> status c = rule5_status d"
  by (auto simp: rule5_def ebind_eq_Inr)

lemma group_violation_entry:
  "v \<in> set (group_violation sectors ser cm c) \<Longrightarrow>
   members v = comp_sectors_of sectors c
   \<and> comp_violation (group_weight sectors ser c) = Some (cluster_status v)"
  by (auto simp: group_violation_def split: option.splits)

lemma group_weight_members:
  "comp_sectors_of sectors c = comp_sectors_of sectors c' \<Longrightarrow>
   group_weight sectors ser c = group_weight sectors ser c'"
  by (simp add: group_weight_def)

lemma cluster_at_60:
  assumes "c \<in> set comps" and "group_weight sectors ser c = Fin 60"
  shows "(\<exists>v \<in> set (concat (map (group_violation sectors ser cm) comps)).
            members v = comp_sectors_of sectors c)
       \<and> (\<forall>v \<in> set (concat (map (group_violation sectors ser cm) comps)).
            members v = comp_sectors_of sectors c \<longrightarrow> cluster_status v = SOFT_WARNING)"
proof (intro conjI ballI impI)
  have "comp_violation (Fin 60) = Some SOFT_WARNING" by (simp add: comp_violation_def fgt_def)
  then obtain v where v: "group_violation sectors ser cm c = [v]" "members v = comp_sectors_of sectors c"
    using assms(2) by (simp add: group_violation_def)
  then have "v \<in> set (group_violation sectors ser cm c)" by simp
  with assms(1) have "v \<in> set (concat (map (group_violation sectors ser cm) comps))"
    by (simp only: set_concat set_map) blast
  with v(2) show "\<exists>v \<in> set (concat (map (group_violation sectors ser cm) comps)).
            members v = comp_sectors_of sectors c"
    by (rule bexI)
next
  fix v assume "v \<in> set (concat (map (group_violation sectors ser cm) comps))"
    and m: "members v = comp_sectors_of sectors c"
  then obtain c' where "c' \<in> set comps" "v \<in> set (group_violation sectors ser cm c')" by auto
  from group_violation_entry [OF this(2)] m have
    "comp_violation (group_weight sectors ser c) = Some (cluster_status v)"
    using group_weight_members [of sectors c c' ser] by simp
  with assms(2) show "cluster_status v = SOFT_WARNING"
    by (simp add: comp_violation_def fgt_def)
qed

lemma cluster_at_50:
  assumes "group_weight sectors ser c = Fin 50"
  shows "\<forall>v \<in> set (concat (map (group_violation sectors ser cm) comps)).
            members v \<noteq> comp_sectors_of sectors c"
proof (intro ballI notI)
  fix v assume "v \<in> set (concat (map (group_violation sectors ser cm) comps))"
    and m: "members v = comp_sectors_of sectors c"
  then obtain c' where "v \<in> set (group_violation sectors ser cm c')" by auto
  from group_violation_entry [OF this] m have
    "comp_violation (group_weight sectors ser c) = Some (cluster_status v)"
    using group_weight_members [of sectors c c' ser] by simp
  with assms show False by (simp add: comp_violation_def fgt_def)
qed

section \<open>What a call leaves unchanged\<close>

lemma keeps_lift: "keeps L (lift r) (\<lambda>_. True)"
  by (simp add: keeps_def lift_def)

lemma keeps_new_obj: "keeps L (new_obj ob) (\<lambda>a. L \<le> a)"
  by (simp add: keeps_def new_obj_def)

lemma keeps_put_obj: "L \<le> a \<Longrightarrow> keeps L (put_obj a ob) (\<lambda>_. True)"
  by (simp add: keeps_def put_obj_def)

lemma keeps_get_dict: "keeps L (get_dict a) (\<lambda>_. True)"
  by (simp add: keeps_def get_dict_def)

lemma keeps_get_fmatrix: "keeps L (get_fmatrix a) (\<lambda>_. True)"
  by (simp add: keeps_def get_fmatrix_def)

lemma keeps_get_imatrix: "keeps L (get_imatrix a) (\<lambda>_. True)"
  by (simp add: keeps_def get_imatrix_def)

lemma keeps_sbind:
  assumes "keeps L m P" and "\<And>x. P x \<Longrightarrow> keeps L (f x) Q"
  shows "keeps L (sbind m f) Q"
  unfolding keeps_def
proof (intro allI impI)
  fix s :: store
  assume L: "L \<le> length s"
  obtain s' r where ms: "m s = (s', r)" by (cases "m s")
  from assms(1) L ms have m: "L \<le> length s'" "take L s' = take L s" "\<forall>x. r = Inr x \<longrightarrow> P x"
    by (auto simp: keeps_def)
  show "L \<le> length (fst (sbind m f s)) \<and> take L (fst (sbind m f s)) = take L s
        \<and> (\<forall>x. snd (sbind m f s) = Inr x \<longrightarrow> Q x)"
  proof (cases r)
    case (Inl e)
    with ms m show ?thesis by (simp add: sbind_def)
  next
    case (Inr x)
    with m(3) have "keeps L (f x) Q" by (simp add: assms(2))
    with m(1) have "L \<le> length (fst (f x s'))" "take L (fst (f x s')) = take L s'"
      "\<forall>y. snd (f x s') = Inr y \<longrightarrow> Q y"
      by (auto simp: keeps_def)
    with ms Inr m(2) show ?thesis by (simp add: sbind_def)
  qed
qed

lemma keeps_set_pairs_st: "L \<le> a \<Longrightarrow> keeps L (set_pairs_st sectors ps a) (\<lambda>_. True)"
proof (induction ps)
  case Nil
  then show ?case by (simp add: keeps_lift)
next
  case (Cons p ps)
  obtain s1 s2 where p: "p = (s1, s2)" by (cases p)
  show ?case
    unfolding p set_pairs_st.simps
    by (intro keeps_sbind [where P = "\<lambda>_. True"] keeps_lift keeps_get_fmatrix
          keeps_put_obj Cons)
qed

lemma keeps_fill_diagonal_st: "L \<le> a \<Longrightarrow> keeps L (fill_diagonal_st a v) (\<lambda>_. True)"
  unfolding fill_diagonal_st_def
  by (intro keeps_sbind [where P = "\<lambda>_. True"] keeps_get_imatrix keeps_put_obj)

lemma keeps_normalize_st: "keeps L (normalize_st d) (\<lambda>_. True)"
  unfolding normalize_st_def Let_def
  apply (rule keeps_sbind [OF keeps_get_dict])
  apply (rule keeps_sbind [OF keeps_new_obj])
  apply (rule keeps_sbind [OF keeps_new_obj])
  apply (rule keeps_sbind [OF keeps_new_obj])
  apply (rule keeps_sbind [OF keeps_new_obj])
  apply (rule keeps_lift)
  done

lemma keeps_correlation_groups_st: "keeps L (correlation_groups_st sectors) (\<lambda>_. True)"
  unfolding correlation_groups_st_def
  apply (rule keeps_sbind [OF keeps_new_obj])
  apply (rule keeps_sbind [OF keeps_set_pairs_st], assumption)
  apply (rule keeps_sbind [OF keeps_get_fmatrix])
  apply (rule keeps_sbind [OF keeps_new_obj])
  apply (rule keeps_sbind [OF keeps_fill_diagonal_st], assumption)
  apply (rule keeps_sbind [OF keeps_get_imatrix])
  apply (rule keeps_sbind [OF keeps_new_obj])
  apply (rule keeps_sbind [OF keeps_lift])
  apply (rule keeps_lift)
  done

lemma keeps_check: "keeps L (check_portfolio_rules_st d verbose now) (\<lambda>_. True)"
  unfolding check_portfolio_rules_st_def
  apply (rule keeps_sbind [OF keeps_normalize_st])
  apply (simp only: split_paired_all prod.case)
  apply (rule keeps_sbind [OF keeps_lift])
  apply (rule keeps_sbind [OF keeps_correlation_groups_st])
  apply (simp only: split_paired_all prod.case)
  apply (rule keeps_sbind [OF keeps_lift])
  apply (rule keeps_lift)
  done

section \<open>The evaluation on the store returns what the evaluation on values returns\<close>

lemma snd_sbind:
  "snd (sbind m f s) = (case snd (m s) of Inl e \<Rightarrow> Inl e | Inr x \<Rightarrow> snd (f x (fst (m s))))"
  by (cases "m s") (auto simp: sbind_def split: sum.splits)

lemma set_pairs_st_refines:
  assumes "lookup s a = Some (FMatrix m)"
  shows "(case set_pairs sectors ps m of
            Inl e \<Rightarrow> snd (set_pairs_st sectors ps a s) = Inl e
          | Inr m' \<Rightarrow> snd (set_pairs_st sectors ps a s) = Inr ()
              \<and> lookup (fst (set_pairs_st sectors ps a s)) a = Some (FMatrix m'))"
  using assms
proof (induction ps arbitrary: s m)
  case Nil
  then show ?case by (simp add: lift_def)
next
  case (Cons p ps)
  obtain s1 s2 where p: "p = (s1, s2)" by (cases p)
  show ?case
  proof (cases "list_index sectors s1")
    case (Inl e)
    then show ?thesis by (simp add: p sbind_def lift_def)
  next
    case i: (Inr i)
    show ?thesis
    proof (cases "list_index sectors s2")
      case (Inl e)
      with i show ?thesis by (simp add: p sbind_def lift_def)
    next
      case j: (Inr j)
      let ?m = "mat_set (mat_set m i j (7 / 10)) j i (7 / 10)"
      have a: "a < length s" using Cons.prems by (simp add: lookup_def split: if_splits)
      then have "lookup (s[a := FMatrix ?m]) a = Some (FMatrix ?m)" by (simp add: lookup_def)
      note IH = Cons.IH [OF this]
      have unf: "set_pairs_st sectors (p # ps) a s = set_pairs_st sectors ps a (s[a := FMatrix ?m])"
        using i j Cons.prems by (simp add: p sbind_def lift_def get_fmatrix_def put_obj_def)
      have unf': "set_pairs sectors (p # ps) m = set_pairs sectors ps ?m"
        using i j by (simp add: p)
      show ?thesis unfolding unf unf' by (rule IH)
    qed
  qed
qed

lemma normalize_st_refines:
  assumes "lookup s d = Some (Dict sw)"
  shows "snd (normalize_st d s) = Inr (map fst sw, normalize_weights (map snd sw))"
  using assms
  by (simp add: normalize_st_def Let_def snd_sbind get_dict_def new_obj_def lift_def
      normalize_weights_def)

lemma correlation_groups_st_refines:
  "snd (correlation_groups_st sectors s) = correlation_groups sectors"
proof -
  let ?s1 = "s @ [FMatrix (identity_matrix (length sectors))]"
  have l: "lookup ?s1 (length s) = Some (FMatrix (identity_matrix (length sectors)))"
    by (simp add: lookup_def)
  note sp = set_pairs_st_refines [OF l, of sectors high_corr_pairs]
  obtain s2 r where s2: "set_pairs_st sectors high_corr_pairs (length s) ?s1 = (s2, r)"
    by (cases "set_pairs_st sectors high_corr_pairs (length s) ?s1")
  show ?thesis
  proof (cases "corr_matrix_of sectors")
    case (Inl e)
    with sp s2 have "r = Inl e" by (simp add: corr_matrix_of_def)
    then show ?thesis
      using Inl s2 by (simp add: correlation_groups_st_def correlation_groups_def sbind_def new_obj_def)
  next
    case (Inr cm)
    with sp s2 have r: "r = Inr ()" and lk: "lookup s2 (length s) = Some (FMatrix cm)"
      by (simp_all add: corr_matrix_of_def)
    have adj: "astype_bool (fill_diagonal (threshold_matrix cm) 0) = adjacency cm"
      by (simp add: adjacency_def Let_def)
    have g: "get_fmatrix (length s) s2 = (s2, Inr cm)" using lk by (simp add: get_fmatrix_def)
    have f: "fill_diagonal_st (length s2) 0 (s2 @ [IMatrix (threshold_matrix cm)])
             = (s2 @ [IMatrix (fill_diagonal (threshold_matrix cm) 0)], Inr ())"
      by (simp add: fill_diagonal_st_def sbind_def get_imatrix_def put_obj_def lookup_def)
    have i: "get_imatrix (length s2) (s2 @ [IMatrix (fill_diagonal (threshold_matrix cm) 0)])
             = (s2 @ [IMatrix (fill_diagonal (threshold_matrix cm) 0)],
                Inr (fill_diagonal (threshold_matrix cm) 0))"
      by (simp add: get_imatrix_def lookup_def)
    show ?thesis
      using Inr
      by (simp add: correlation_groups_st_def correlation_groups_def sbind_def new_obj_def
          s2 r g f i adj lift_def ebind_def split: sum.splits)
  qed
qed

lemma check_st_refines:
  assumes "lookup s d = Some (Dict sw)"
  shows "snd (check_portfolio_rules_st d verbose now s) = check_portfolio_rules sw verbose now"
  using normalize_st_refines [OF assms]
  by (simp add: check_portfolio_rules_st_def check_portfolio_rules_def rule2_def Let_def
      snd_sbind correlation_groups_st_refines lift_def ebind_def split: sum.splits prod.splits)

section \<open>The example portfolios evaluated\<close>

lemma clustered_report:
  "hard_violations_count (summary (fst (projr (check_portfolio_rules clustered_weights False [])))) = 0
   \<and> map cluster_status (the (violations
        (checks (fst (projr (check_portfolio_rules clustered_weights False []))) ! 1)))
      = [HARD_VIOLATION]"
  by code_simp

lemma example_groups:
  "map members (the (components (checks (fst (projr (check_portfolio_rules example_weights False []))) ! 1)))
   = [[''Information Technology'', ''Communication Services'', ''Consumer Discretionary''],
      [''Consumer Staples'', ''Health Care''], [''Financials'', ''Industrials''],
      [''Energy'', ''Materials''], [''Real Estate''], [''Utilities'']]"
  by code_simp

lemma boundary_a_eval:
  "input_weights (fst (projr (check_portfolio_rules boundary_weights_a False [])))
     = map (\<lambda>p. (fst p, fmul (snd p) (Fin 2))) boundary_weights_a
   \<and> members (the (components (checks (fst (projr (check_portfolio_rules boundary_weights_a False []))) ! 1)) ! 0)
     = it_group
   \<and> length (the (components (checks (fst (projr (check_portfolio_rules boundary_weights_a False []))) ! 1))) = 6"
  by code_simp

lemma boundary_b_eval:
  "input_weights (fst (projr (check_portfolio_rules boundary_weights_b False [])))
     = boundary_weights_b
   \<and> members (the (components (checks (fst (projr (check_portfolio_rules boundary_weights_b False []))) ! 1)) ! 0)
     = it_group
   \<and> length (the (components (checks (fst (projr (check_portfolio_rules boundary_weights_b False []))) ! 1))) = 6"
  by code_simp

lemma boundary_c_eval:
  "input_weights (fst (projr (check_portfolio_rules boundary_weights_c False [])))
     = boundary_weights_c"
  by code_simp

lemma boundary_d_eval:
  "input_weights (fst (projr (check_portfolio_rules boundary_weights_d False [])))
     = boundary_weights_d"
  by code_simp

lemma boundary_metrics:
  "comp_weight_of (map (\<lambda>p. (fst p, fmul (snd p) (Fin 2))) boundary_weights_a) it_group = Inr (Fin 50)"
  "defensive_sum_of (map fst boundary_weights_a) (map (\<lambda>p. (fst p, fmul (snd p) (Fin 2))) boundary_weights_a) = Inr (Fin 5)"
  "reit_sum_of (map fst boundary_weights_a) (map (\<lambda>p. (fst p, fmul (snd p) (Fin 2))) boundary_weights_a) = Inr (Fin 20)"
  "em_sum_of (map fst boundary_weights_a) (map (\<lambda>p. (fst p, fmul (snd p) (Fin 2))) boundary_weights_a) = Inr (Fin 25)"
  "comp_weight_of boundary_weights_b it_group = Inr (Fin 60)"
  "reit_sum_of (map fst boundary_weights_b) boundary_weights_b = Inr (Fin 15)"
  "em_sum_of (map fst boundary_weights_b) boundary_weights_b = Inr (Fin 20)"
  "defensive_sum_of (map fst boundary_weights_c) boundary_weights_c = Inr (Fin 10)"
  "em_sum_of (map fst boundary_weights_c) boundary_weights_c = Inr (Fin 15)"
  by code_simp+

lemma example_store_size:
  "length (fst (check_portfolio_rules_st 0 False [] [Dict example_weights])) = 8"
  by code_simp

section \<open>Binary64: the exponent, and rounding to an integer\<close>

lemma log2i_bounds_int:
  "0 < n \<Longrightarrow> 0 \<le> log2i n \<and> 2 ^ nat (log2i n) \<le> n \<and> n < 2 * 2 ^ nat (log2i n)"
proof (induction n rule: log2i.induct)
  case (1 n)
  show ?case
  proof (cases "n < 2")
    case True
    with "1.prems" have "n = 1" by simp
    then show ?thesis by (simp add: log2i.simps)
  next
    case False
    then have m: "0 < n div 2" by simp
    from "1.IH" [OF False m] have
      k: "0 \<le> log2i (n div 2)" and lo: "2 ^ nat (log2i (n div 2)) \<le> n div 2"
      and hi: "n div 2 < 2 * 2 ^ nat (log2i (n div 2))" by simp_all
    have l: "log2i n = 1 + log2i (n div 2)" using False by (subst log2i.simps) simp
    have p: "(2::int) ^ nat (1 + log2i (n div 2)) = 2 * 2 ^ nat (log2i (n div 2))"
      using k by (simp add: nat_add_distrib)
    have "2 * (n div 2) \<le> n" "n \<le> 2 * (n div 2) + 1" by simp_all
    with lo hi k show ?thesis unfolding l p by simp
  qed
qed

lemma powi_nat: "0 \<le> k \<Longrightarrow> (2::rat) powi k = of_int (2 ^ nat k)"
  by (simp add: power_int_def)

lemma powi_diff: "(2::rat) powi a / 2 powi b = 2 powi (a - b)"
  by (simp add: power_int_diff)

lemma powi_add2: "(2::rat) powi (a + b) = 2 powi a * 2 powi b"
  by (simp add: power_int_add)

lemma powi_pos [simp]: "0 < (2::rat) powi a"
  by (simp add: zero_less_power_int)

lemma powi_mono: "a \<le> b \<Longrightarrow> (2::rat) powi a \<le> 2 powi b"
  by (rule power_int_increasing) simp_all

lemma log2i_bounds:
  assumes "0 < n"
  shows "(2::rat) powi log2i n \<le> of_int n" and "of_int n < (2::rat) powi (log2i n + 1)"
proof -
  from log2i_bounds_int [OF assms] have k: "0 \<le> log2i n"
    and lo: "2 ^ nat (log2i n) \<le> n" and hi: "n < 2 * 2 ^ nat (log2i n)" by simp_all
  have "(of_int (2 ^ nat (log2i n)) :: rat) \<le> of_int n" using lo by (simp only: of_int_le_iff)
  then show "(2::rat) powi log2i n \<le> of_int n" using k by (simp add: powi_nat)
  have "(of_int n :: rat) < of_int (2 * 2 ^ nat (log2i n))" using hi by (simp only: of_int_less_iff)
  then show "of_int n < (2::rat) powi (log2i n + 1)"
    using k by (simp add: power_int_add powi_nat)
qed

lemma exponent_bounds:
  assumes "0 < q"
  shows "2 powi exponent q \<le> q" and "q < 2 powi (exponent q + 1)"
proof -
  obtain p d where pd: "quotient_of q = (p, d)" by (cases "quotient_of q")
  then have d: "0 < d" by (rule quotient_of_denom_pos)
  from pd have q: "q = of_int p / of_int d" by (rule quotient_of_div)
  have p: "0 < p" using assms d unfolding q by (simp add: zero_less_divide_iff)
  define k where "k = log2i p - log2i d"
  note bp = log2i_bounds [OF p] and bd = log2i_bounds [OF d]
  have dpos: "(0::rat) < of_int d" using d by simp
  have "q < 2 powi (log2i p + 1) / 2 powi log2i d"
    unfolding q using bp(2) bd(1) p
    by (intro frac_less) simp_all
  also have "\<dots> = 2 powi (log2i p + 1 - log2i d)" by (simp only: powi_diff)
  also have "log2i p + 1 - log2i d = k + 1" by (simp add: k_def)
  finally have up: "q < 2 powi (k + 1)" .
  have "2 powi log2i p / 2 powi (log2i d + 1) < q"
    unfolding q using bp(1) bd(2) dpos
    by (intro frac_less2) simp_all
  moreover have "2 powi log2i p / (2::rat) powi (log2i d + 1) = 2 powi (log2i p - (log2i d + 1))"
    by (simp only: powi_diff)
  moreover have "log2i p - (log2i d + 1) = k - 1" by (simp add: k_def)
  ultimately have lo: "2 powi (k - 1) < q" by simp
  have e: "exponent q = (if 2 powi k \<le> q then k else k - 1)"
    by (simp add: exponent_def pd k_def Let_def)
  show "2 powi exponent q \<le> q" using lo by (simp add: e less_imp_le)
  show "q < 2 powi (exponent q + 1)" using up by (auto simp: e not_le)
qed

lemma exponent_unique:
  assumes "0 < q" and "2 powi e \<le> q" and "q < 2 powi (e + 1)"
  shows "exponent q = e"
proof (rule ccontr)
  assume ne: "exponent q \<noteq> e"
  note b = exponent_bounds [OF assms(1)]
  show False
  proof (cases "exponent q < e")
    case True
    then have "(2::rat) powi (exponent q + 1) \<le> 2 powi e"
      by (intro power_int_increasing) simp_all
    with b(2) assms(2) show False by simp
  next
    case False
    with ne have "e + 1 \<le> exponent q" by simp
    then have "(2::rat) powi (e + 1) \<le> 2 powi exponent q"
      by (intro power_int_increasing) simp_all
    with b(1) assms(3) show False by simp
  qed
qed

lemma exponent_mono:
  assumes "0 < a" "a \<le> b"
  shows "exponent a \<le> exponent b"
proof (rule ccontr)
  assume "\<not> exponent a \<le> exponent b"
  then have "exponent b + 1 \<le> exponent a" by simp
  then have "(2::rat) powi (exponent b + 1) \<le> 2 powi exponent a" by (rule powi_mono)
  moreover have "b < 2 powi (exponent b + 1)" using assms by (intro exponent_bounds) simp
  moreover have "2 powi exponent a \<le> a" using assms(1) by (rule exponent_bounds)
  ultimately show False using assms(2) by simp
qed

lemma exponent_one: "exponent 1 = 0"
  by (rule exponent_unique) simp_all

lemma rhe_cases:
  "round_half_even x = \<lfloor>x\<rfloor> \<or> round_half_even x = \<lfloor>x\<rfloor> + 1"
  by (simp add: round_half_even_def Let_def)

lemma rhe_error: "\<bar>of_int (round_half_even x) - x\<bar> \<le> 1 / 2"
proof -
  have "of_int \<lfloor>x\<rfloor> \<le> x" "x < of_int \<lfloor>x\<rfloor> + 1" by linarith+
  then show ?thesis
    by (auto simp: round_half_even_def Let_def abs_le_iff not_less)
qed

lemma rhe_of_int [simp]: "round_half_even (of_int n) = n"
  by (simp add: round_half_even_def)

lemma rhe_numeral [simp]: "round_half_even (numeral k) = numeral k"
  using rhe_of_int [of "numeral k"] by simp

lemma rhe_nearest:
  assumes "\<bar>of_int n - x\<bar> < 1 / 2"
  shows "round_half_even x = n"
proof -
  from rhe_error [of x] assms
  have "\<bar>(of_int (round_half_even x) :: rat) - of_int n\<bar> < 1" by linarith
  then have "\<bar>(of_int (round_half_even x - n) :: rat)\<bar> < 1" by simp
  then have "\<bar>round_half_even x - n\<bar> < 1" by (metis of_int_abs of_int_less_1_iff)
  then show ?thesis by simp
qed

lemma rhe_tie_even: "even n \<Longrightarrow> round_half_even (of_int n + 1 / 2) = n"
proof -
  have f: "\<lfloor>(of_int n :: rat) + 1 / 2\<rfloor> = n" by linarith
  assume "even n"
  then show ?thesis by (simp add: round_half_even_def f)
qed

lemma rhe_mono:
  assumes "x \<le> y"
  shows "round_half_even x \<le> round_half_even y"
proof (cases "\<lfloor>x\<rfloor> = \<lfloor>y\<rfloor>")
  case True
  with assms show ?thesis by (auto simp: round_half_even_def Let_def)
next
  case False
  with assms have "\<lfloor>x\<rfloor> < \<lfloor>y\<rfloor>" by (simp add: floor_mono order.strict_iff_order)
  then have "\<lfloor>x\<rfloor> + 1 \<le> \<lfloor>y\<rfloor>" by simp
  moreover have "round_half_even x \<le> \<lfloor>x\<rfloor> + 1" using rhe_cases [of x] by auto
  moreover have "\<lfloor>y\<rfloor> \<le> round_half_even y" using rhe_cases [of y] by auto
  ultimately show ?thesis by linarith
qed

section \<open>Binary64: rounding a rational\<close>

text \<open>
  In the normal range the rounded value is within the relative error \<open>unit_roundoff\<close>
  of the exact one; rounding is monotone; a value of at least \<open>2 powi 1024\<close> rounds to
  infinity; an integer below \<open>2 ^ 53\<close> is not changed. Lemma \<open>round_b64_eq\<close> gives the
  rounded value from the exponent and the rounded significand.
\<close>

lemma round_pos_alt:
  "round_pos q = of_int (round_half_even (q / 2 powi (ulp_exp q - 52))) * 2 powi (ulp_exp q - 52)"
  by (simp add: round_pos_def ulp_exp_def Let_def)

lemma round_pos_eq:
  assumes "0 < q" "2 powi e \<le> q" "q < 2 powi (e + 1)" "- 1022 \<le> e"
  shows "round_pos q = of_int (round_half_even (q / 2 powi (e - 52))) * 2 powi (e - 52)"
proof -
  have "exponent q = e" using assms(1-3) by (rule exponent_unique)
  then have "ulp_exp q = e" using assms(4) by (simp add: ulp_exp_def)
  then show ?thesis by (simp add: round_pos_alt)
qed

lemma round_pos_error:
  "\<bar>round_pos q - q\<bar> \<le> 2 powi (ulp_exp q - 53)"
proof -
  define u :: rat where "u = 2 powi (ulp_exp q - 52)"
  have u: "0 < u" by (simp add: u_def)
  have "round_pos q - q = (of_int (round_half_even (q / u)) - q / u) * u"
    using u by (simp add: round_pos_alt u_def algebra_simps)
  then have "\<bar>round_pos q - q\<bar> = \<bar>of_int (round_half_even (q / u)) - q / u\<bar> * u"
    using u by (simp add: abs_mult)
  also have "\<dots> \<le> 1 / 2 * u" using rhe_error [of "q / u"] u by (intro mult_right_mono) simp_all
  also have "1 / 2 * u = 2 powi (ulp_exp q - 53)"
  proof -
    have "ulp_exp q - 52 = (ulp_exp q - 53) + 1" by simp
    then have "u = 2 powi (ulp_exp q - 53) * 2 powi 1" unfolding u_def by (simp only: powi_add2)
    then show ?thesis by simp
  qed
  finally show ?thesis .
qed

lemma round_pos_upper:
  assumes "0 < q"
  shows "round_pos q \<le> 2 powi (ulp_exp q + 1)"
proof -
  define u :: rat where "u = 2 powi (ulp_exp q - 52)"
  have u: "0 < u" by (simp add: u_def)
  have s: "2 powi (ulp_exp q + 1) = 2 powi 53 * u"
  proof -
    have "ulp_exp q + 1 = 53 + (ulp_exp q - 52)" by simp
    then show ?thesis unfolding u_def by (simp only: powi_add2)
  qed
  have "q < 2 powi (exponent q + 1)" using assms by (rule exponent_bounds)
  also have "\<dots> \<le> 2 powi (ulp_exp q + 1)" by (rule powi_mono) (simp add: ulp_exp_def)
  finally have "q < 2 powi 53 * u" unfolding s .
  then have "q / u \<le> of_int (2 ^ 53)" using u by (simp add: pos_divide_le_eq less_imp_le)
  then have "round_half_even (q / u) \<le> round_half_even (of_int (2 ^ 53))" by (rule rhe_mono)
  then have "round_half_even (q / u) \<le> 2 ^ 53" by (simp only: rhe_of_int)
  then have "(of_int (round_half_even (q / u)) :: rat) \<le> of_int (2 ^ 53)" by (simp only: of_int_le_iff)
  then have "of_int (round_half_even (q / u)) * u \<le> of_int (2 ^ 53) * u"
    using u by (intro mult_right_mono) simp_all
  then show ?thesis unfolding s round_pos_alt u_def by simp
qed

lemma round_pos_lower:
  assumes "0 < q" "- 1022 \<le> exponent q"
  shows "2 powi exponent q \<le> round_pos q"
proof -
  have e: "ulp_exp q = exponent q" using assms(2) by (simp add: ulp_exp_def)
  define u :: rat where "u = 2 powi (exponent q - 52)"
  have u: "0 < u" by (simp add: u_def)
  have s: "2 powi exponent q = 2 powi 52 * u"
  proof -
    have "exponent q = 52 + (exponent q - 52)" by simp
    then show ?thesis unfolding u_def by (metis powi_add2)
  qed
  have "2 powi 52 * u \<le> q" using exponent_bounds(1) [OF assms(1)] unfolding s .
  then have "of_int (2 ^ 52) \<le> q / u" using u by (simp add: pos_le_divide_eq)
  then have "round_half_even (of_int (2 ^ 52)) \<le> round_half_even (q / u)" by (rule rhe_mono)
  then have "2 ^ 52 \<le> round_half_even (q / u)" by (simp only: rhe_of_int)
  then have "(of_int (2 ^ 52) :: rat) \<le> of_int (round_half_even (q / u))" by (simp only: of_int_le_iff)
  then have "of_int (2 ^ 52) * u \<le> of_int (round_half_even (q / u)) * u"
    using u by (intro mult_right_mono) simp_all
  then show ?thesis unfolding s round_pos_alt e u_def by simp
qed

lemma round_pos_mono:
  assumes "0 < a" "a \<le> b"
  shows "round_pos a \<le> round_pos b"
proof -
  have b: "0 < b" using assms by simp
  have le: "ulp_exp a \<le> ulp_exp b"
    using exponent_mono [OF assms] by (simp add: ulp_exp_def)
  show ?thesis
  proof (cases "ulp_exp a = ulp_exp b")
    case True
    have "a / 2 powi (ulp_exp b - 52) \<le> b / 2 powi (ulp_exp b - 52)"
      using assms(2) by (simp add: divide_right_mono)
    then have "round_half_even (a / 2 powi (ulp_exp b - 52))
               \<le> round_half_even (b / 2 powi (ulp_exp b - 52))" by (rule rhe_mono)
    then have "(of_int (round_half_even (a / 2 powi (ulp_exp b - 52))) :: rat)
               \<le> of_int (round_half_even (b / 2 powi (ulp_exp b - 52)))" by (simp only: of_int_le_iff)
    then show ?thesis unfolding round_pos_alt True
      by (intro mult_right_mono) simp_all
  next
    case False
    with le have lt: "ulp_exp a + 1 \<le> ulp_exp b" by simp
    then have eb: "ulp_exp b = exponent b" "- 1022 \<le> exponent b"
      by (simp_all add: ulp_exp_def max_def split: if_splits)
    have "round_pos a \<le> 2 powi (ulp_exp a + 1)" using assms(1) by (rule round_pos_upper)
    also have "\<dots> \<le> 2 powi exponent b" using lt eb(1) by (intro powi_mono) simp
    also have "\<dots> \<le> round_pos b" using b eb(2) by (rule round_pos_lower)
    finally show ?thesis .
  qed
qed

lemma round_pos_rel:
  assumes "2 powi (- 1022) \<le> q"
  shows "\<bar>round_pos q - q\<bar> \<le> q / 2 ^ 53"
proof -
  have q: "0 < q" using assms powi_pos [of "- 1022"] by linarith
  have "- 1022 \<le> exponent q"
  proof (rule ccontr)
    assume "\<not> - 1022 \<le> exponent q"
    then have "exponent q + 1 \<le> - 1022" by simp
    then have "(2::rat) powi (exponent q + 1) \<le> 2 powi (- 1022)" by (rule powi_mono)
    with exponent_bounds(2) [OF q] assms show False by simp
  qed
  then have e: "ulp_exp q = exponent q" by (simp add: ulp_exp_def)
  have "exponent q - 53 = exponent q + (- 53)" by simp
  then have "(2::rat) powi (exponent q - 53) = 2 powi exponent q * 2 powi (- 53)"
    by (simp only: powi_add2)
  also have "\<dots> = 2 powi exponent q / 2 ^ 53" by (simp add: power_int_minus field_simps)
  also have "\<dots> \<le> q / 2 ^ 53" using exponent_bounds(1) [OF q] by (simp add: divide_right_mono)
  finally show ?thesis using round_pos_error [of q] unfolding e by simp
qed

lemma round_b64_pos:
  assumes "0 < q"
  shows "round_b64 q = (if 2 powi 1024 \<le> round_pos q then PInf else Fin (round_pos q))"
  using assms by (simp add: round_b64_def Let_def)

lemma round_b64_neg:
  assumes "q < 0"
  shows "round_b64 q = (if 2 powi 1024 \<le> round_pos (- q) then NInf else Fin (- round_pos (- q)))"
  using assms by (simp add: round_b64_def Let_def)

lemma round_pos_min_normal: "round_pos (2 powi (- 1022)) = 2 powi (- 1022)"
proof -
  have "round_pos (2 powi (- 1022))
        = of_int (round_half_even (2 powi (- 1022) / 2 powi (- 1022 - 52))) * 2 powi (- 1022 - 52)"
    by (rule round_pos_eq) simp_all
  also have "2 powi (- 1022) / 2 powi (- 1022 - 52) = (of_int (2 ^ 52) :: rat)"
    by (simp only: powi_diff) simp
  finally show ?thesis by (simp only: rhe_of_int) simp
qed

lemma round_b64_normal:
  assumes "2 powi (- 1022) \<le> q" "q \<le> 2 powi 1023"
  shows "\<exists>r. round_b64 q = Fin r \<and> \<bar>r - q\<bar> \<le> q / 2 ^ 53 \<and> 2 powi (- 1022) \<le> r"
proof -
  have q: "0 < q" using assms(1) powi_pos [of "- 1022"] by linarith
  note e = round_pos_rel [OF assms(1)]
  have "round_pos q \<le> q + q / 2 ^ 53" using e by linarith
  also have "\<dots> \<le> 2 powi 1023 + 2 powi 1023 / 2 ^ 53"
    using assms(2) by (intro add_mono divide_right_mono) simp_all
  also have "\<dots> < 2 powi 1024" by simp
  finally have lt: "\<not> 2 powi 1024 \<le> round_pos q" by simp
  have "round_pos (2 powi (- 1022)) \<le> round_pos q" using assms(1) by (intro round_pos_mono) simp_all
  moreover have "round_pos (2 powi (- 1022)) = 2 powi (- 1022)" by (rule round_pos_min_normal)
  ultimately have "2 powi (- 1022) \<le> round_pos q" by simp
  with e lt show ?thesis by (simp add: round_b64_pos [OF q])
qed

lemma round_b64_overflow:
  assumes "2 powi 1024 \<le> q"
  shows "round_b64 q = PInf"
proof -
  have q: "0 < q" using assms powi_pos [of 1024] by linarith
  have "round_pos (2 powi 1024) \<le> round_pos q" using assms by (intro round_pos_mono) simp_all
  moreover have "round_pos (2 powi 1024) = 2 powi 1024"
  proof -
    have "round_pos (2 powi 1024)
          = of_int (round_half_even (2 powi 1024 / 2 powi (1024 - 52))) * 2 powi (1024 - 52)"
      by (rule round_pos_eq) simp_all
    also have "2 powi 1024 / 2 powi (1024 - 52) = (of_int (2 ^ 52) :: rat)"
      by (simp only: powi_diff) simp
    finally show ?thesis by (simp only: rhe_of_int) simp
  qed
  ultimately show ?thesis by (simp add: round_b64_pos [OF q])
qed

lemma round_b64_eq:
  assumes "0 < q" "2 powi e \<le> q" "q < 2 powi (e + 1)" "- 1022 \<le> e"
    and "round_half_even (q / 2 powi (e - 52)) = n"
    and "of_int n * 2 powi (e - 52) < (2::rat) powi 1024"
  shows "round_b64 q = Fin (of_int n * 2 powi (e - 52))"
  using assms(5,6) by (simp add: round_b64_pos [OF assms(1)] round_pos_eq [OF assms(1-4)])

lemma abs_bound:
  fixes r :: rat
  assumes "\<bar>r - q\<bar> \<le> d"
  shows "q - d \<le> r \<and> r \<le> q + d"
  using assms by linarith

lemma abs_from_bounds:
  fixes x :: rat
  assumes "c - d \<le> x" "x \<le> c + d"
  shows "\<bar>x - c\<bar> \<le> d"
  using assms by linarith

lemma round_b64_rel:
  assumes "2 powi (- 1022) \<le> q" "q \<le> 2 powi 1023"
  shows "round_b64 q = Fin (round_pos q)"
    and "q * (1 - unit_roundoff) \<le> round_pos q"
    and "round_pos q \<le> q * (1 + unit_roundoff)"
    and "2 powi (- 1022) \<le> round_pos q"
proof -
  have q: "0 < q" using assms(1) powi_pos [of "- 1022"] by linarith
  from round_b64_normal [OF assms] obtain r where
    r: "round_b64 q = Fin r" "\<bar>r - q\<bar> \<le> q / 2 ^ 53" "2 powi (- 1022) \<le> r" by blast
  from r(1) have e: "r = round_pos q" by (simp add: round_b64_pos [OF q] split: if_splits)
  show "round_b64 q = Fin (round_pos q)" using r(1) e by simp
  show "2 powi (- 1022) \<le> round_pos q" using r(3) e by simp
  have a: "\<bar>round_pos q - q\<bar> \<le> q / 2 ^ 53" using r(2) e by simp
  have "q * (1 - unit_roundoff) = q - q / 2 ^ 53"
    by (simp add: unit_roundoff_def algebra_simps)
  also have "\<dots> \<le> round_pos q" using abs_bound [OF a] by (rule conjunct1)
  finally show "q * (1 - unit_roundoff) \<le> round_pos q" .
  have "round_pos q \<le> q + q / 2 ^ 53" using abs_bound [OF a] by (rule conjunct2)
  also have "\<dots> = q * (1 + unit_roundoff)"
    by (simp add: unit_roundoff_def algebra_simps)
  finally show "round_pos q \<le> q * (1 + unit_roundoff)" .
qed

lemma round_b64_minus:
  assumes "round_b64 x = Fin r"
  shows "round_b64 (- x) = Fin (- r)"
proof -
  consider "x = 0" | "0 < x" | "x < 0" by linarith
  then show ?thesis
  proof cases
    case 1
    with assms show ?thesis by (simp add: round_b64_def)
  next
    case 2
    with assms have "\<not> 2 powi 1024 \<le> round_pos x \<and> r = round_pos x"
      by (simp add: round_b64_pos split: if_splits)
    moreover have "- x < 0" using 2 by simp
    ultimately show ?thesis by (simp add: round_b64_neg)
  next
    case 3
    with assms have "\<not> 2 powi 1024 \<le> round_pos (- x) \<and> r = - round_pos (- x)"
      by (simp add: round_b64_neg split: if_splits)
    moreover have "0 < - x" using 3 by simp
    ultimately show ?thesis by (simp add: round_b64_pos)
  qed
qed

lemma round_b64_int:
  assumes "0 < n" "n < 2 ^ 53"
  shows "round_b64 (of_int n) = Fin (of_int n)"
proof -
  define q :: rat where "q = of_int n"
  have q: "0 < q" "1 \<le> q" using assms(1) by (simp_all add: q_def)
  define e where "e = exponent q"
  have e0: "0 \<le> e" using exponent_mono [of 1 q] q(2) by (simp add: e_def exponent_one)
  have e52: "e \<le> 52"
  proof (rule ccontr)
    assume "\<not> e \<le> 52"
    then have "53 \<le> e" by simp
    then have "(2::rat) powi 53 \<le> 2 powi e" by (rule powi_mono)
    also have "\<dots> \<le> q" unfolding e_def using q(1) by (rule exponent_bounds)
    finally have "(of_int (2 ^ 53) :: rat) \<le> of_int n" by (simp add: q_def)
    then have "2 ^ 53 \<le> n" by (simp only: of_int_le_iff)
    with assms(2) show False by simp
  qed
  have u: "ulp_exp q = e" using e0 by (simp add: ulp_exp_def e_def)
  have k: "0 \<le> 52 - e" using e52 by simp
  have "q / 2 powi (e - 52) = q * 2 powi (52 - e)"
    by (simp add: power_int_diff field_simps)
  also have "\<dots> = of_int (n * 2 ^ nat (52 - e))" by (simp add: powi_nat [OF k] q_def)
  finally have i: "q / 2 powi (e - 52) = of_int (n * 2 ^ nat (52 - e))" .
  have "round_pos q = of_int (n * 2 ^ nat (52 - e)) * 2 powi (e - 52)"
    unfolding round_pos_alt u i by (simp only: rhe_of_int)
  also have "\<dots> = q / 2 powi (e - 52) * 2 powi (e - 52)" by (simp only: i)
  also have "\<dots> = q" by simp
  finally have r: "round_pos q = q" .
  have "q < of_int (2 ^ 53)" unfolding q_def using assms(2) by (simp only: of_int_less_iff)
  also have "\<dots> < 2 powi 1024" by simp
  finally have "\<not> 2 powi 1024 \<le> q" by simp
  then show ?thesis using r q(1) by (simp add: round_b64_pos q_def [symmetric])
qed

lemma round_b64_numeral:
  "(numeral k :: int) < 2 ^ 53 \<Longrightarrow> round_b64 (numeral k) = Fin (numeral k)"
  using round_b64_int [of "numeral k"] by simp

section \<open>Binary64: the total, in any order of the additions\<close>

text \<open>
  For at most \<open>2 ^ 20\<close> weights between \<open>2 powi (- 500)\<close> and \<open>2 powi 500\<close>, whatever the
  order and the bracketing of the additions, the total is finite and within the
  relative error \<open>(1 + unit_roundoff) ^ n - 1\<close> of the exact sum.
\<close>

lemma bernoulli_lower:
  fixes u :: rat
  assumes "0 \<le> u" "u \<le> 1"
  shows "1 - of_nat k * u \<le> (1 - u) ^ k"
proof (induction k)
  case 0
  show ?case by simp
next
  case (Suc k)
  have "1 - of_nat (Suc k) * u \<le> (1 - of_nat k * u) * (1 - u)"
    using assms(1) by (simp add: algebra_simps)
  also have "\<dots> \<le> (1 - u) ^ k * (1 - u)"
    using Suc assms(2) by (intro mult_right_mono) simp_all
  finally show ?case by (simp add: mult.commute)
qed

lemma bernoulli_upper:
  fixes u :: rat
  assumes "0 \<le> u" "2 * of_nat k * u \<le> 1"
  shows "(1 + u) ^ k \<le> 1 + 2 * of_nat k * u"
  using assms(2)
proof (induction k)
  case 0
  show ?case by simp
next
  case (Suc k)
  have k: "2 * of_nat k * u \<le> 1"
  proof -
    have "2 * of_nat k * u \<le> 2 * of_nat (Suc k) * u"
      using assms(1) by (intro mult_right_mono) simp_all
    with Suc.prems show ?thesis by simp
  qed
  have "(1 + u) ^ Suc k = (1 + u) ^ k * (1 + u)" by simp
  also have "\<dots> \<le> (1 + 2 * of_nat k * u) * (1 + u)"
    using Suc.IH [OF k] assms(1) by (intro mult_right_mono) simp_all
  also have "\<dots> = 1 + 2 * of_nat (Suc k) * u - u * (1 - 2 * of_nat k * u)"
    by (simp add: algebra_simps)
  also have "\<dots> \<le> 1 + 2 * of_nat (Suc k) * u"
    using assms(1) k by simp
  finally show ?case .
qed

lemma pw_lower:
  assumes "k \<le> 2 ^ 20"
  shows "1 - 1 / 2 ^ 33 \<le> (1 - unit_roundoff) ^ k"
proof -
  have "(of_nat k :: rat) \<le> of_nat (2 ^ 20)" using assms by (simp only: of_nat_le_iff)
  then have "(of_nat k :: rat) * unit_roundoff \<le> of_nat (2 ^ 20) * unit_roundoff"
    by (intro mult_right_mono) (simp_all add: unit_roundoff_def)
  also have "\<dots> = 1 / 2 ^ 33" by (simp add: unit_roundoff_def)
  finally have "1 - 1 / 2 ^ 33 \<le> 1 - of_nat k * unit_roundoff" by simp
  also have "\<dots> \<le> (1 - unit_roundoff) ^ k"
    by (rule bernoulli_lower) (simp_all add: unit_roundoff_def)
  finally show ?thesis .
qed

lemma pw_upper:
  assumes "k \<le> 2 ^ 20"
  shows "(1 + unit_roundoff) ^ k \<le> 1 + 1 / 2 ^ 32"
proof -
  have "(of_nat k :: rat) \<le> of_nat (2 ^ 20)" using assms by (simp only: of_nat_le_iff)
  then have "(of_nat k :: rat) * unit_roundoff \<le> of_nat (2 ^ 20) * unit_roundoff"
    by (intro mult_right_mono) (simp_all add: unit_roundoff_def)
  also have "\<dots> = 1 / 2 ^ 33" by (simp add: unit_roundoff_def)
  finally have k: "2 * of_nat k * unit_roundoff \<le> 1 / 2 ^ 32" by simp
  then have "2 * of_nat k * unit_roundoff \<le> 1" by simp
  then have "(1 + unit_roundoff) ^ k \<le> 1 + 2 * of_nat k * unit_roundoff"
    by (intro bernoulli_upper) (simp_all add: unit_roundoff_def)
  with k show ?thesis by simp
qed

lemma in_range_Fin:
  assumes "in_range lo hi w"
  obtains q where "w = Fin q" "lo \<le> q" "q \<le> hi"
  using assms by (cases w) (simp_all add: in_range_def)

lemma exact_sum_mset:
  assumes "mset ws = mset xs + mset ys"
  shows "exact_sum ws = exact_sum xs + exact_sum ys"
proof -
  have "exact_sum ws = sum_mset (image_mset fin_val (mset ws))"
    unfolding exact_sum_def by (metis mset_map sum_mset_sum_list)
  also have "\<dots> = sum_mset (image_mset fin_val (mset xs)) + sum_mset (image_mset fin_val (mset ys))"
    unfolding assms by simp
  also have "\<dots> = exact_sum xs + exact_sum ys"
    unfolding exact_sum_def by (metis mset_map sum_mset_sum_list)
  finally show ?thesis .
qed

lemma exact_sum_bounds':
  assumes "\<forall>w \<in> set ws. in_range lo hi w"
  shows "of_nat (length ws) * lo \<le> exact_sum ws \<and> exact_sum ws \<le> of_nat (length ws) * hi"
  using assms
proof (induction ws)
  case Nil
  show ?case by (simp add: exact_sum_def)
next
  case (Cons w ws)
  from Cons.prems have "in_range lo hi w" by simp
  then obtain q where q: "w = Fin q" "lo \<le> q" "q \<le> hi" by (rule in_range_Fin)
  have r: "\<forall>w \<in> set ws. in_range lo hi w" using Cons.prems by simp
  show ?case using Cons.IH [OF r] q by (simp add: exact_sum_def algebra_simps)
qed

lemma exact_sum_bounds:
  assumes "\<forall>w \<in> set ws. in_range lo hi w"
  shows "of_nat (length ws) * lo \<le> exact_sum ws" and "exact_sum ws \<le> of_nat (length ws) * hi"
  using exact_sum_bounds' [OF assms] by simp_all

lemma exact_sum_member:
  assumes "\<forall>w \<in> set ws. in_range lo hi w" "0 \<le> lo" "Fin q \<in> set ws"
  shows "q \<le> exact_sum ws"
proof -
  from assms(3) obtain xs ys where s: "ws = xs @ Fin q # ys" by (meson split_list)
  have "\<forall>w \<in> set xs. in_range lo hi w" "\<forall>w \<in> set ys. in_range lo hi w"
    using assms(1) s by simp_all
  from exact_sum_bounds(1) [OF this(1)] exact_sum_bounds(1) [OF this(2)] assms(2)
  have "0 \<le> exact_sum xs" "0 \<le> exact_sum ys"
    by (meson mult_nonneg_nonneg of_nat_0_le_iff order_trans)+
  then show ?thesis by (simp add: s exact_sum_def)
qed

lemma exact_sum_Fin [simp]: "exact_sum (map Fin qs) = sum_list qs"
  by (simp add: exact_sum_def comp_def)

lemma all_in_range_map:
  assumes "\<forall>w \<in> set ws. in_range lo hi w"
  shows "\<exists>qs. ws = map Fin qs \<and> (\<forall>q \<in> set qs. lo \<le> q \<and> q \<le> hi)"
  using assms
proof (induction ws)
  case Nil
  show ?case by simp
next
  case (Cons w ws)
  from Cons.prems have "in_range lo hi w" by simp
  then obtain q where q: "w = Fin q" "lo \<le> q" "q \<le> hi" by (rule in_range_Fin)
  from Cons obtain qs where "ws = map Fin qs" "\<forall>q \<in> set qs. lo \<le> q \<and> q \<le> hi" by auto
  with q show ?case by (intro exI [of _ "q # qs"]) simp
qed

lemma sum_tree_bounds:
  assumes "b64_sum_of ws t"
    and "ws \<noteq> []" and "\<forall>w \<in> set ws. in_range (2 powi (- 500)) (2 powi 500) w"
    and "length ws \<le> 2 ^ 20"
  shows "\<exists>s. t = Fin s \<and> exact_sum ws * (1 - unit_roundoff) ^ length ws \<le> s
            \<and> s \<le> exact_sum ws * (1 + unit_roundoff) ^ length ws"
  using assms
proof (induction rule: b64_sum_of.induct)
  case empty
  then show ?case by simp
next
  case (single w)
  then have "in_range (2 powi (- 500)) (2 powi 500) w" by simp
  then obtain q where q: "w = Fin q" "2 powi (- 500) \<le> q" by (rule in_range_Fin)
  have "0 < q" using q(2) powi_pos [of "- 500"] by linarith
  then show ?case using q(1)
    by (simp add: exact_sum_def unit_roundoff_def algebra_simps)
next
  case (node xs a ys b ws)
  let ?p = "1 - unit_roundoff" and ?P = "1 + unit_roundoff"
  let ?R = "in_range (2 powi (- 500)) (2 powi 500)"
  have p: "0 \<le> ?p" "?p \<le> 1" "1 \<le> ?P" by (simp_all add: unit_roundoff_def)
  have sub: "set xs \<subseteq> set ws" "set ys \<subseteq> set ws"
    using node.hyps(5) by (metis mset_subset_eq_add_left set_mset_mono set_mset_mset,
        metis mset_subset_eq_add_right set_mset_mono set_mset_mset)
  have len: "length ws = length xs + length ys"
    using node.hyps(5) by (metis size_mset size_union)
  have sm: "exact_sum ws = exact_sum xs + exact_sum ys" using node.hyps(5) by (rule exact_sum_mset)
  have rx: "\<forall>w \<in> set xs. ?R w" and ry: "\<forall>w \<in> set ys. ?R w" using node.prems(2) sub by auto
  have lx: "length xs \<le> 2 ^ 20" and ly: "length ys \<le> 2 ^ 20" using node.prems(3) len by simp_all
  from node.IH(1) [OF node.hyps(3) rx lx] obtain sa where
    a: "a = Fin sa" "exact_sum xs * ?p ^ length xs \<le> sa" "sa \<le> exact_sum xs * ?P ^ length xs"
    by blast
  from node.IH(2) [OF node.hyps(4) ry ly] obtain sb where
    b: "b = Fin sb" "exact_sum ys * ?p ^ length ys \<le> sb" "sb \<le> exact_sum ys * ?P ^ length ys"
    by blast
  define k where "k = length ws - 1"
  have "0 < length xs" "0 < length ys" using node.hyps(3,4) by simp_all
  then have k: "length ws = Suc k" "length xs \<le> k" "length ys \<le> k"
    unfolding k_def using len by linarith+
  have k20: "k \<le> 2 ^ 20" using k(1) node.prems(3) by simp
  have A: "0 \<le> exact_sum xs" "0 \<le> exact_sum ys"
    using exact_sum_bounds(1) [OF rx] exact_sum_bounds(1) [OF ry]
    by (meson mult_nonneg_nonneg of_nat_0_le_iff less_imp_le powi_pos order_trans)+
  have S: "2 powi (- 500) \<le> exact_sum ws"
  proof -
    have "1 * 2 powi (- 500) \<le> (of_nat (length ws) :: rat) * 2 powi (- 500)"
      using k(1) by (intro mult_right_mono) simp_all
    with exact_sum_bounds(1) [OF node.prems(2)] show ?thesis by simp
  qed
  have S': "exact_sum ws \<le> 2 ^ 20 * 2 powi 500"
  proof -
    have "(of_nat (length ws) :: rat) \<le> of_nat (2 ^ 20)"
      using node.prems(3) by (simp only: of_nat_le_iff)
    then have "(of_nat (length ws) :: rat) * 2 powi 500 \<le> of_nat (2 ^ 20) * 2 powi 500"
      by (intro mult_right_mono) simp_all
    with exact_sum_bounds(2) [OF node.prems(2)] show ?thesis by simp
  qed
  have lo: "exact_sum ws * ?p ^ k \<le> sa + sb"
  proof -
    have "?p ^ k \<le> ?p ^ length xs" "?p ^ k \<le> ?p ^ length ys"
      using p k by (simp_all add: power_decreasing)
    then have "exact_sum xs * ?p ^ k \<le> exact_sum xs * ?p ^ length xs"
      "exact_sum ys * ?p ^ k \<le> exact_sum ys * ?p ^ length ys"
      using A by (simp_all add: mult_left_mono)
    with a(2) b(2) show ?thesis unfolding sm by (simp add: algebra_simps)
  qed
  have hi: "sa + sb \<le> exact_sum ws * ?P ^ k"
  proof -
    have "?P ^ length xs \<le> ?P ^ k" "?P ^ length ys \<le> ?P ^ k"
      using p k by (simp_all add: power_increasing)
    then have "exact_sum xs * ?P ^ length xs \<le> exact_sum xs * ?P ^ k"
      "exact_sum ys * ?P ^ length ys \<le> exact_sum ys * ?P ^ k"
      using A by (simp_all add: mult_left_mono)
    with a(3) b(3) show ?thesis unfolding sm by (simp add: algebra_simps)
  qed
  have S0: "0 \<le> exact_sum ws" using A sm by simp
  have n1: "2 powi (- 1022) \<le> sa + sb"
  proof -
    have "(2::rat) powi (- 1022) \<le> 2 powi (- 500) * (1 - 1 / 2 ^ 33)" by simp
    also have "\<dots> \<le> exact_sum ws * (1 - 1 / 2 ^ 33)" using S by (intro mult_right_mono) simp_all
    also have "\<dots> \<le> exact_sum ws * ?p ^ k" using pw_lower [OF k20] S0 by (intro mult_left_mono)
    finally show ?thesis using lo by simp
  qed
  have n2: "sa + sb \<le> 2 powi 1023"
  proof -
    have "sa + sb \<le> exact_sum ws * ?P ^ k" by (rule hi)
    also have "\<dots> \<le> exact_sum ws * (1 + 1 / 2 ^ 32)" using pw_upper [OF k20] S0 by (intro mult_left_mono)
    also have "\<dots> \<le> 2 ^ 20 * 2 powi 500 * (1 + 1 / 2 ^ 32)" using S' by (intro mult_right_mono) simp_all
    also have "\<dots> \<le> 2 powi 1023" by simp
    finally show ?thesis .
  qed
  note r = round_b64_rel [OF n1 n2]
  have t: "b64_add a b = Fin (round_pos (sa + sb))" by (simp add: b64_add_def a(1) b(1) r(1))
  have "exact_sum ws * ?p ^ length ws = exact_sum ws * ?p ^ k * ?p" by (simp add: k(1))
  also have "\<dots> \<le> (sa + sb) * ?p" using lo p(1) by (intro mult_right_mono)
  also have "\<dots> \<le> round_pos (sa + sb)" by (rule r(2))
  finally have l: "exact_sum ws * ?p ^ length ws \<le> round_pos (sa + sb)" .
  have "round_pos (sa + sb) \<le> (sa + sb) * ?P" by (rule r(3))
  also have "\<dots> \<le> exact_sum ws * ?P ^ k * ?P" using hi p(3) by (intro mult_right_mono) simp_all
  also have "\<dots> = exact_sum ws * ?P ^ length ws" by (simp add: k(1))
  finally have h: "round_pos (sa + sb) \<le> exact_sum ws * ?P ^ length ws" .
  from t l h show ?case by blast
qed

lemma sum_left_to_right_foldl:
  assumes "b64_sum_of xs a" "xs \<noteq> []"
  shows "b64_sum_of (xs @ ys) (foldl b64_add a ys)"
  using assms
proof (induction ys arbitrary: xs a)
  case Nil
  then show ?case by simp
next
  case (Cons y ys)
  have "b64_sum_of (xs @ [y]) (b64_add a y)"
    using Cons.prems(1) b64_sum_of.single [of y] Cons.prems(2) by (rule b64_sum_of.node) simp_all
  from Cons.IH [OF this] show ?case by simp
qed

lemma sum_left_to_right_is_sum: "b64_sum_of ws (sum_left_to_right ws)"
proof (cases ws)
  case Nil
  then show ?thesis by (simp add: b64_sum_of.empty)
next
  case (Cons w ws')
  have "b64_sum_of ([w] @ ws') (foldl b64_add w ws')"
    by (rule sum_left_to_right_foldl) (simp_all add: b64_sum_of.single)
  then show ?thesis by (simp add: Cons)
qed

section \<open>Binary64: the entries of step 0\<close>

lemma two_roundings:
  assumes "2 powi (- 1022) \<le> x" "x \<le> 2 powi 1000"
  shows "round_b64 x = Fin (round_pos x)"
    and "round_b64 (round_pos x * 100) = Fin (round_pos (round_pos x * 100))"
    and "x * 100 * (1 - unit_roundoff) ^ 2 \<le> round_pos (round_pos x * 100)"
    and "round_pos (round_pos x * 100) \<le> x * 100 * (1 + unit_roundoff) ^ 2"
    and "0 < round_pos (round_pos x * 100)"
proof -
  let ?p = "1 - unit_roundoff" and ?P = "1 + unit_roundoff"
  have p: "0 \<le> ?p" "0 \<le> ?P" by (simp_all add: unit_roundoff_def)
  have x: "0 < x" using assms(1) powi_pos [of "- 1022"] by linarith
  have "x \<le> 2 powi 1023" using assms(2) by simp
  note r1 = round_b64_rel [OF assms(1) this]
  let ?y = "round_pos x * 100"
  have "2 powi (- 1022) * 1 \<le> round_pos x * 100"
    using r1(4) by (intro mult_mono) simp_all
  then have y1: "2 powi (- 1022) \<le> ?y" by simp
  have "?y \<le> x * ?P * 100" using r1(3) by (intro mult_right_mono) simp_all
  also have "\<dots> \<le> 2 powi 1000 * ?P * 100"
    using assms(2) p by (intro mult_right_mono) simp_all
  also have "\<dots> \<le> 2 powi 1023" by (simp add: unit_roundoff_def)
  finally have y2: "?y \<le> 2 powi 1023" .
  note r2 = round_b64_rel [OF y1 y2]
  show "round_b64 x = Fin (round_pos x)" by (rule r1(1))
  show "round_b64 ?y = Fin (round_pos ?y)" by (rule r2(1))
  have "x * 100 * ?p ^ 2 = x * ?p * 100 * ?p" by (simp add: power2_eq_square)
  also have "\<dots> \<le> ?y * ?p" using r1(2) p by (intro mult_right_mono) simp_all
  also have "\<dots> \<le> round_pos ?y" by (rule r2(2))
  finally show "x * 100 * ?p ^ 2 \<le> round_pos ?y" .
  have "round_pos ?y \<le> ?y * ?P" by (rule r2(3))
  also have "\<dots> \<le> x * ?P * 100 * ?P" using r1(3) p by (intro mult_right_mono) simp_all
  also have "\<dots> = x * 100 * ?P ^ 2" by (simp add: power2_eq_square)
  finally show "round_pos ?y \<le> x * 100 * ?P ^ 2" .
  have "(0::rat) < 2 powi (- 1022)" by (rule powi_pos)
  also have "\<dots> \<le> round_pos ?y" by (rule r2(4))
  finally show "0 < round_pos ?y" .
qed

lemma entry_bounds:
  assumes "0 < s" "2 powi (- 1022) \<le> q / s" "q / s \<le> 2 powi 1000"
  shows "b64_mul (b64_div (Fin q) (Fin s)) (Fin 100) = Fin (normalized_entry s q)"
    and "q / s * 100 * (1 - unit_roundoff) ^ 2 \<le> normalized_entry s q"
    and "normalized_entry s q \<le> q / s * 100 * (1 + unit_roundoff) ^ 2"
    and "0 < normalized_entry s q"
proof -
  note t = two_roundings [OF assms(2,3)]
  have "b64_div (Fin q) (Fin s) = Fin (round_pos (q / s))"
    using assms(1) t(1) by (simp add: b64_div_def)
  then show "b64_mul (b64_div (Fin q) (Fin s)) (Fin 100) = Fin (normalized_entry s q)"
    using t(2) by (simp add: b64_mul_def normalized_entry_def)
  show "q / s * 100 * (1 - unit_roundoff) ^ 2 \<le> normalized_entry s q"
    unfolding normalized_entry_def by (rule t(3))
  show "normalized_entry s q \<le> q / s * 100 * (1 + unit_roundoff) ^ 2"
    unfolding normalized_entry_def by (rule t(4))
  show "0 < normalized_entry s q"
    unfolding normalized_entry_def by (rule t(5))
qed

lemma normalized_entry_mono:
  assumes "0 < s" "2 powi (- 1022) \<le> a / s" "a \<le> b"
  shows "normalized_entry s a \<le> normalized_entry s b"
proof -
  have x: "0 < a / s" using assms(2) powi_pos [of "- 1022"] by linarith
  have le: "a / s \<le> b / s" using assms(1,3) by (simp add: divide_right_mono)
  have r: "2 powi (- 1022) \<le> round_pos (a / s)"
  proof -
    have "round_pos (2 powi (- 1022)) \<le> round_pos (a / s)"
      using assms(2) by (intro round_pos_mono) simp_all
    moreover have "round_pos (2 powi (- 1022)) = 2 powi (- 1022)" by (rule round_pos_min_normal)
    ultimately show ?thesis by simp
  qed
  then have "0 < round_pos (a / s) * 100" using powi_pos [of "- 1022"] by simp
  moreover have "round_pos (a / s) * 100 \<le> round_pos (b / s) * 100"
    using round_pos_mono [OF x le] by simp
  ultimately show ?thesis unfolding normalized_entry_def by (rule round_pos_mono)
qed

lemma sum_list_le:
  fixes f g :: "rat \<Rightarrow> rat"
  assumes "\<forall>x \<in> set xs. f x \<le> g x"
  shows "sum_list (map f xs) \<le> sum_list (map g xs)"
  using assms by (induction xs) (auto intro: add_mono)

lemma entry_minus:
  assumes "b64_mul (b64_div (Fin a) (Fin s)) (Fin 100) = Fin r" "s \<noteq> 0"
  shows "b64_mul (b64_div (Fin (- a)) (Fin s)) (Fin 100) = Fin (- r)"
proof -
  have d: "b64_div (Fin a) (Fin s) = round_b64 (a / s)" using assms(2) by (simp add: b64_div_def)
  obtain r1 where r1: "round_b64 (a / s) = Fin r1"
    using assms(1) unfolding d by (cases "round_b64 (a / s)") (simp_all add: b64_mul_def)
  have m: "round_b64 (r1 * 100) = Fin r" using assms(1) unfolding d r1 by (simp add: b64_mul_def)
  have "b64_div (Fin (- a)) (Fin s) = round_b64 (- (a / s))" using assms(2) by (simp add: b64_div_def)
  also have "\<dots> = Fin (- r1)" using r1 by (rule round_b64_minus)
  finally have "b64_mul (b64_div (Fin (- a)) (Fin s)) (Fin 100) = round_b64 (- (r1 * 100))"
    by (simp add: b64_mul_def)
  also have "\<dots> = Fin (- r)" using m by (rule round_b64_minus)
  finally show ?thesis .
qed

lemma fixed_point_entry_pos:
  assumes "1 / 2 ^ 1000 \<le> q" "q \<le> 2 ^ 1000"
  shows "\<exists>r. b64_mul (b64_div (Fin q) (Fin 100)) (Fin 100) = Fin r \<and> \<bar>r - q\<bar> \<le> q / 2 ^ 51"
proof -
  let ?p = "1 - unit_roundoff" and ?P = "1 + unit_roundoff"
  have q: "0 < q"
  proof -
    have "(0::rat) < 1 / 2 ^ 1000" by simp
    with assms(1) show ?thesis by linarith
  qed
  have "2 powi (- 1022) * 100 \<le> (1::rat) / 2 ^ 1000" by simp
  with assms(1) have "2 powi (- 1022) * 100 \<le> q" by linarith
  then have e1: "2 powi (- 1022) \<le> q / 100" by simp
  have "q \<le> 2 powi 1000 * 100" using assms(2) by simp
  then have e2: "q / 100 \<le> 2 powi 1000" by simp
  note e = entry_bounds [OF _ e1 e2]
  have s: "q / 100 * 100 = q" by simp
  have "q - q / 2 ^ 51 \<le> q * ?p ^ 2"
    using q by (simp add: unit_roundoff_def power2_eq_square algebra_simps)
  also have "\<dots> \<le> normalized_entry 100 q" using e(2) unfolding s by simp
  finally have l: "q - q / 2 ^ 51 \<le> normalized_entry 100 q" .
  have "normalized_entry 100 q \<le> q * ?P ^ 2" using e(3) unfolding s by simp
  also have "\<dots> \<le> q + q / 2 ^ 51"
    using q by (simp add: unit_roundoff_def power2_eq_square algebra_simps)
  finally have h: "normalized_entry 100 q \<le> q + q / 2 ^ 51" .
  from l h have "\<bar>normalized_entry 100 q - q\<bar> \<le> q / 2 ^ 51" by (rule abs_from_bounds)
  with e(1) show ?thesis by simp
qed

lemma fixed_point_entry:
  assumes "q = 0 \<or> (1 / 2 ^ 1000 \<le> \<bar>q\<bar> \<and> \<bar>q\<bar> \<le> 2 ^ 1000)"
  shows "\<exists>r. b64_mul (b64_div (Fin q) (Fin 100)) (Fin 100) = Fin r \<and> \<bar>r - q\<bar> \<le> \<bar>q\<bar> / 2 ^ 51"
proof -
  consider "q = 0" | "0 < q" | "q < 0" by linarith
  then show ?thesis
  proof cases
    case 1
    then show ?thesis by (simp add: b64_div_def b64_mul_def round_b64_def)
  next
    case 2
    with assms have "1 / 2 ^ 1000 \<le> q" "q \<le> 2 ^ 1000" by simp_all
    from fixed_point_entry_pos [OF this] 2 show ?thesis by simp
  next
    case 3
    with assms have "1 / 2 ^ 1000 \<le> - q" "- q \<le> 2 ^ 1000" by simp_all
    from fixed_point_entry_pos [OF this] obtain r where
      r: "b64_mul (b64_div (Fin (- q)) (Fin 100)) (Fin 100) = Fin r" "\<bar>r - (- q)\<bar> \<le> - q / 2 ^ 51"
      by blast
    from entry_minus [OF r(1)] have "b64_mul (b64_div (Fin q) (Fin 100)) (Fin 100) = Fin (- r)"
      by simp
    moreover have "\<bar>- r - q\<bar> = \<bar>r - (- q)\<bar>" by simp
    ultimately show ?thesis using r(2) 3 by (intro exI [of _ "- r"]) simp
  qed
qed

lemma abs_scaled:
  fixes a w c d :: rat
  assumes "\<bar>a - w * c\<bar> \<le> d" "0 < c"
  shows "\<bar>a / c - w\<bar> \<le> d / c"
proof -
  have "a / c - w = (a - w * c) / c" using assms(2) by (simp add: field_simps)
  then have "\<bar>a / c - w\<bar> = \<bar>a - w * c\<bar> / c" using assms(2) by (simp add: abs_divide)
  also have "\<dots> \<le> d / c" using assms by (intro divide_right_mono) simp_all
  finally show ?thesis .
qed

lemma py_round_2_error: "\<exists>r. py_round (Fin w) 2 = Fin r \<and> \<bar>r - w\<bar> < 1 / 100"
proof -
  define n where "n = round_half_even (w * 10 ^ 2)"
  have "\<bar>of_int n - w * 10 ^ 2\<bar> \<le> 1 / 2" unfolding n_def by (rule rhe_error)
  then have "\<bar>of_int n / 10 ^ 2 - w\<bar> \<le> 1 / 2 / 10 ^ 2" by (rule abs_scaled) simp
  moreover have "(1::rat) / 2 / 10 ^ 2 < 1 / 100" by simp
  ultimately have "\<bar>of_int n / 10 ^ 2 - w\<bar> < 1 / 100" by (rule order.strict_trans1)
  then show ?thesis unfolding n_def by (intro exI [of _ "of_int (round_half_even (w * 10 ^ 2)) / 10 ^ 2"]) simp
qed

section \<open>Binary64: examples evaluated\<close>

text \<open>
  The total of the module's example is 100, and its first weight, 28, is normalized to
  \<open>28 + 1 / 2 ^ 48\<close> (Python prints \<^verbatim>\<open>28.000000000000004\<close>). Two weights of \<open>2 ^ 1023\<close> have
  the total infinity and are normalized to zero. The weights \<open>1\<close>, \<open>1 + 1 / 2 ^ 52\<close> and \<open>9\<close>
  have the total 11 (in every order of the additions), and the first two are normalized
  to the same float.
\<close>

lemma example_total: "sum_left_to_right (map snd example_weights) = Fin 100"
  by (simp add: example_weights_def b64_add_def round_b64_numeral)

lemma example_first_entry:
  "normalize_b64 (Fin 100) (map snd example_weights) ! 0 = Fin (28 + 1 / 2 ^ 48)"
proof -
  have "round_b64 (7 / 25) = Fin (of_int 5044031582654956 * 2 powi (- 2 - 52))"
    by (rule round_b64_eq [where e = "- 2"]; (rule rhe_nearest)?; simp)
  then have d: "b64_div (Fin 28) (Fin 100) = Fin (5044031582654956 / 2 ^ 54)"
    by (simp add: b64_div_def)
  have "round_b64 (5044031582654956 / 2 ^ 54 * 100) = Fin (of_int 7881299347898369 * 2 powi (4 - 52))"
    by (rule round_b64_eq [where e = 4]; (rule rhe_nearest)?; simp)
  then have m: "b64_mul (Fin (5044031582654956 / 2 ^ 54)) (Fin 100) = Fin (28 + 1 / 2 ^ 48)"
    by (simp add: b64_mul_def)
  show ?thesis using d m by (simp add: normalize_b64_def example_weights_def)
qed

lemma overflow_total: "sum_left_to_right [Fin (2 ^ 1023), Fin (2 ^ 1023)] = PInf"
proof -
  have "round_b64 (2 ^ 1023 + 2 ^ 1023) = PInf" by (rule round_b64_overflow) simp
  then show ?thesis by (simp add: b64_add_def)
qed

lemma overflow_normalized:
  "normalize_b64 PInf [Fin (2 ^ 1023), Fin (2 ^ 1023)] = [Fin 0, Fin 0]"
  by (simp add: normalize_b64_def b64_div_def b64_mul_def round_b64_def)

lemma tie_total: "sum_left_to_right [Fin 1, Fin (1 + 1 / 2 ^ 52), Fin 9] = Fin 11"
proof -
  have "(2 + 1 / 2 ^ 52) / 2 powi (1 - 52) = (of_int 4503599627370496 :: rat) + 1 / 2" by simp
  then have "round_half_even ((2 + 1 / 2 ^ 52) / 2 powi (1 - 52)) = 4503599627370496"
    using rhe_tie_even [of 4503599627370496] by simp
  then have "round_b64 (2 + 1 / 2 ^ 52) = Fin (of_int 4503599627370496 * 2 powi (1 - 52))"
    by (intro round_b64_eq) simp_all
  then have a: "b64_add (Fin 1) (Fin (1 + 1 / 2 ^ 52)) = Fin 2" by (simp add: b64_add_def)
  have b: "b64_add (Fin 2) (Fin 9) = Fin 11" by (simp add: b64_add_def round_b64_numeral)
  show ?thesis using a b by simp
qed

lemma tie_normalized:
  "normalize_b64 (Fin 11) [Fin 1, Fin (1 + 1 / 2 ^ 52), Fin 9] ! 0 = Fin (5117726849284655 / 2 ^ 49)"
  "normalize_b64 (Fin 11) [Fin 1, Fin (1 + 1 / 2 ^ 52), Fin 9] ! 1 = Fin (5117726849284655 / 2 ^ 49)"
proof -
  have "round_b64 (1 / 11) = Fin (of_int 6550690367084358 * 2 powi (- 4 - 52))"
    by (rule round_b64_eq [where e = "- 4"]; (rule rhe_nearest)?; simp)
  then have d0: "b64_div (Fin 1) (Fin 11) = Fin (6550690367084358 / 2 ^ 56)"
    by (simp add: b64_div_def)
  have "round_b64 (6550690367084358 / 2 ^ 56 * 100) = Fin (of_int 5117726849284655 * 2 powi (3 - 52))"
    by (rule round_b64_eq [where e = 3]; (rule rhe_nearest)?; simp)
  then have m0: "b64_mul (Fin (6550690367084358 / 2 ^ 56)) (Fin 100) = Fin (5117726849284655 / 2 ^ 49)"
    by (simp add: b64_mul_def)
  have "round_b64 ((1 + 1 / 2 ^ 52) / 11) = Fin (of_int 6550690367084359 * 2 powi (- 4 - 52))"
    by (rule round_b64_eq [where e = "- 4"]; (rule rhe_nearest)?; simp)
  then have d1: "b64_div (Fin (1 + 1 / 2 ^ 52)) (Fin 11) = Fin (6550690367084359 / 2 ^ 56)"
    by (simp add: b64_div_def)
  have "round_b64 (6550690367084359 / 2 ^ 56 * 100) = Fin (of_int 5117726849284655 * 2 powi (3 - 52))"
    by (rule round_b64_eq [where e = 3]; (rule rhe_nearest)?; simp)
  then have m1: "b64_mul (Fin (6550690367084359 / 2 ^ 56)) (Fin 100) = Fin (5117726849284655 / 2 ^ 49)"
    by (simp add: b64_mul_def)
  show "normalize_b64 (Fin 11) [Fin 1, Fin (1 + 1 / 2 ^ 52), Fin 9] ! 0 = Fin (5117726849284655 / 2 ^ 49)"
    using d0 m0 by (simp add: normalize_b64_def)
  show "normalize_b64 (Fin 11) [Fin 1, Fin (1 + 1 / 2 ^ 52), Fin 9] ! 1 = Fin (5117726849284655 / 2 ^ 49)"
    using d1 m1 by (simp add: normalize_b64_def)
qed

lemma normalize_28_72:
  "normalize_b64 (Fin 100) [Fin 28, Fin 72] = [Fin (28 + 1 / 2 ^ 48), Fin 72]"
proof -
  have "round_b64 (7 / 25) = Fin (of_int 5044031582654956 * 2 powi (- 2 - 52))"
    by (rule round_b64_eq [where e = "- 2"]; (rule rhe_nearest)?; simp)
  then have d1: "b64_div (Fin 28) (Fin 100) = Fin (5044031582654956 / 2 ^ 54)"
    by (simp add: b64_div_def)
  have "round_b64 (5044031582654956 / 2 ^ 54 * 100) = Fin (of_int 7881299347898369 * 2 powi (4 - 52))"
    by (rule round_b64_eq [where e = 4]; (rule rhe_nearest)?; simp)
  then have m1: "b64_mul (Fin (5044031582654956 / 2 ^ 54)) (Fin 100) = Fin (28 + 1 / 2 ^ 48)"
    by (simp add: b64_mul_def)
  have "round_b64 (18 / 25) = Fin (of_int 6485183463413514 * 2 powi (- 1 - 52))"
    by (rule round_b64_eq [where e = "- 1"]; (rule rhe_nearest)?; simp)
  then have d2: "b64_div (Fin 72) (Fin 100) = Fin (6485183463413514 / 2 ^ 53)"
    by (simp add: b64_div_def)
  have "round_b64 (6485183463413514 / 2 ^ 53 * 100) = Fin (of_int 5066549580791808 * 2 powi (6 - 52))"
    by (rule round_b64_eq [where e = 6]; (rule rhe_nearest)?; simp)
  then have m2: "b64_mul (Fin (6485183463413514 / 2 ^ 53)) (Fin 100) = Fin 72"
    by (simp add: b64_mul_def)
  show ?thesis using d1 m1 d2 m2 by (simp add: normalize_b64_def)
qed

text \<open>
  The conversion of line 29: an int of magnitude below \<open>2 ^ 53\<close> is converted exactly, and
  an int of \<open>2 ^ 1024\<close> raises OverflowError before anything else is computed.
\<close>

lemma float_of_small_int:
  assumes "\<bar>n\<bar> < 2 ^ 53"
  shows "float_of (PyInt n) = Inr (Fin (of_int n))"
proof -
  consider "n = 0" | "0 < n" | "n < 0" by linarith
  then have "round_b64 (of_int n) = Fin (of_int n)"
  proof cases
    case 1
    then show ?thesis by (simp add: round_b64_def)
  next
    case 2
    with assms show ?thesis by (intro round_b64_int) simp_all
  next
    case 3
    with assms have "round_b64 (of_int (- n)) = Fin (of_int (- n))"
      by (intro round_b64_int) simp_all
    from round_b64_minus [OF this] show ?thesis by simp
  qed
  then show ?thesis by (simp add: float_of_def)
qed

lemma np_array_float_length:
  "np_array_float vs = Inr ws \<Longrightarrow> length ws = length vs"
proof (induction vs arbitrary: ws)
  case Nil
  then show ?case by simp
next
  case (Cons v vs)
  then show ?case by (auto simp: ebind_def split: sum.splits)
qed

lemma example_ints_converted:
  "np_array_float (map snd example_ints) = Inr (map snd example_weights)"
  "np_array_float (map snd negative_ints) = Inr (map snd negative_weights)"
  by (simp_all add: example_ints_def negative_ints_def example_weights_def negative_weights_def
      float_of_small_int ebind_def)

lemma huge_int_raises:
  "check_portfolio_rules_py ((''Energy'', PyInt (2 ^ 1024)) # sw) verbose now = Inl OverflowError"
proof -
  have "round_b64 (of_int (2 ^ 1024)) = PInf" by (rule round_b64_overflow) simp
  then show ?thesis by (simp add: check_portfolio_rules_py_def float_of_def ebind_def)
qed

lemma sixths_report:
  "map weight_sum (the (components (checks (fst (projr (check_portfolio_rules sixths_weights False []))) ! 1)))
     = [Fin (1667 / 100), Fin (1667 / 100), Fin (1667 / 100), Fin (1667 / 100), Fin (1667 / 100),
        Fin (1667 / 100)]"
  by code_simp

lemma example_report_sums:
  "map weight_sum (the (components (checks (fst (projr (check_portfolio_rules example_weights False []))) ! 1)))
     = [Fin 50, Fin 16, Fin 18, Fin 9, Fin 4, Fin 3]"
  by code_simp

section \<open>The claims\<close>

text \<open>
  Claim C1, as amended. The evaluator checks nothing about the weights and has no
  InputError. An empty mapping fails with the ValueError of \<^verbatim>\<open>np.argmax\<close> at the start
  of rule 1, and no report is returned. A negative weight and a total of zero are not
  rejected: a mapping that is not empty, holds every sector of the correlation table
  and whose weights line 29 converts to floats gets a full report of five findings,
  whatever the signs of its weights and whatever their total.
\<close>

theorem no_input_validation:
  "check_portfolio_rules_py [] verbose now = Inl ValueError
   \<and> (sw \<noteq> [] \<and> table_present (map fst sw) \<and> np_array_float (map snd sw) = Inr ws \<longrightarrow>
        (\<exists>rep out. check_portfolio_rules_py sw verbose now = Inr (rep, out)
            \<and> length (checks rep) = 5))"
proof (intro conjI impI)
  show "check_portfolio_rules_py [] verbose now = Inl ValueError"
    by (simp add: check_portfolio_rules_py_def ebind_def check_empty)
next
  assume a: "sw \<noteq> [] \<and> table_present (map fst sw) \<and> np_array_float (map snd sw) = Inr ws"
  then have l: "length ws = length (map fst sw)"
    using np_array_float_length [of "map snd sw" ws] by simp
  then have k: "map fst (zip (map fst sw) ws) = map fst sw" by (metis map_fst_zip)
  have n: "zip (map fst sw) ws \<noteq> []" using a l by (cases sw; cases ws) simp_all
  have t: "table_present (map fst (zip (map fst sw) ws))" using a k by simp
  from check_ok [OF n t, of verbose now] a
  show "\<exists>rep out. check_portfolio_rules_py sw verbose now = Inr (rep, out)
          \<and> length (checks rep) = 5"
    by (simp add: check_portfolio_rules_py_def ebind_def)
qed

theorem no_input_validation_witness:
  "negative_ints \<noteq> [] \<and> table_present (map fst negative_ints)
   \<and> np_array_float (map snd negative_ints) = Inr (map snd negative_weights)
   \<and> snd (negative_weights ! 10) = Fin (- 3)
   \<and> (\<exists>rep out. check_portfolio_rules_py negative_ints False [] = Inr (rep, out)
          \<and> length (checks rep) = 5)"
proof -
  have h: "negative_ints \<noteq> [] \<and> table_present (map fst negative_ints)"
    by (simp add: negative_ints_def example_ints_def table_present_def high_corr_pairs_def)
  have v: "snd (negative_weights ! 10) = Fin (- 3)"
    by (simp add: negative_weights_def example_weights_def)
  from no_input_validation [of False "[]" negative_ints "map snd negative_weights"]
    h example_ints_converted(2) v
  show ?thesis by blast
qed

text \<open>
  The claim as stated fails: a portfolio with a negative weight, and one whose weights
  sum to zero, are both evaluated to a report.
\<close>

theorem negative_and_zero_total_accepted:
  "flt (snd (negative_weights ! 10)) (Fin 0)
   \<and> \<not> isl (check_portfolio_rules negative_weights False [])
   \<and> np_sum (map snd zero_weights) = Fin 0
   \<and> \<not> isl (check_portfolio_rules zero_weights False [])"
  by code_simp

text \<open>
  Claim C2 (the code does otherwise). The claim says that a pair of the correlation
  table with an absent sector is skipped and the evaluation succeeds. In the code
  \<^verbatim>\<open>sectors.index\<close> raises ValueError for the absent sector and the evaluation fails.
\<close>

theorem absent_table_sector_raises:
  assumes "(s1, s2) \<in> set high_corr_pairs"
    and "s1 \<notin> fst ` set sw \<or> s2 \<notin> fst ` set sw"
  shows "check_portfolio_rules sw verbose now = Inl ValueError"
proof -
  have "\<not> (fst (s1, s2) \<in> set (map fst sw) \<and> snd (s1, s2) \<in> set (map fst sw))"
    using assms(2) by auto
  with assms(1) have "\<not> table_present (map fst sw)"
    unfolding table_present_def list_all_iff by blast
  then show ?thesis by (rule check_missing)
qed

theorem absent_table_sector_raises_witness:
  "(''Energy'', ''Materials'') \<in> set high_corr_pairs
   \<and> ''Materials'' \<notin> fst ` set [(''Energy'', Fin 60), (''Utilities'', Fin 40)]
   \<and> check_portfolio_rules [(''Energy'', Fin 60), (''Utilities'', Fin 40)] False [] = Inl ValueError"
proof -
  have a: "(''Energy'', ''Materials'') \<in> set high_corr_pairs"
    by (simp add: high_corr_pairs_def)
  have b: "''Materials'' \<notin> fst ` set [(''Energy'', Fin 60), (''Utilities'', Fin 40)]"
    by simp
  from absent_table_sector_raises [OF a disjI2, OF b] a b show ?thesis by blast
qed

text \<open>
  Claim C3, as amended. Take a mapping of at most \<open>2 ^ 20\<close> sectors whose weights are all
  between \<open>1 / 2 ^ 500\<close> and \<open>2 ^ 500\<close>, and let \<open>t\<close> be the total that \<^verbatim>\<open>weights.sum()\<close>
  returns, in whatever order it adds. Then \<open>t\<close> is finite, every normalized weight of
  step 0 is a positive finite float, the exact sum of the normalized weights is within one
  millionth of 100, and the order is kept weakly: a sector whose raw weight is below
  another's never gets the larger normalized weight. (It can get the same one.)
\<close>

theorem normalization_properties:
  assumes "ws \<noteq> []" and "length ws \<le> 2 ^ 20"
    and "\<forall>w \<in> set ws. in_range (1 / 2 ^ 500) (2 ^ 500) w"
    and "b64_sum_of ws t"
  shows "\<exists>s ns. t = Fin s \<and> normalize_b64 t ws = map Fin ns
      \<and> \<bar>sum_list ns - 100\<bar> \<le> 1 / 10 ^ 6
      \<and> (\<forall>x \<in> set ns. 0 < x)
      \<and> (\<forall>i < length ws. \<forall>j < length ws. flt (ws ! i) (ws ! j) \<longrightarrow> ns ! i \<le> ns ! j)"
proof -
  let ?p = "1 - unit_roundoff" and ?P = "1 + unit_roundoff"
  have "(1::rat) / 2 ^ 500 = 2 powi (- 500)" "(2::rat) ^ 500 = 2 powi 500" by simp_all
  then have R: "\<forall>w \<in> set ws. in_range (2 powi (- 500)) (2 powi 500) w"
    using assms(3) by metis
  from all_in_range_map [OF R] obtain qs where
    qs: "ws = map Fin qs" and rg: "\<forall>q \<in> set qs. 2 powi (- 500) \<le> q \<and> q \<le> 2 powi 500" by blast
  have n: "length qs = length ws" by (simp add: qs)
  from sum_tree_bounds [OF assms(4,1) R assms(2)] obtain s where
    t: "t = Fin s" and s1: "exact_sum ws * ?p ^ length ws \<le> s"
    and s2: "s \<le> exact_sum ws * ?P ^ length ws" by blast
  define S where "S = sum_list qs"
  have S: "exact_sum ws = S" by (simp add: qs S_def)
  have Slo: "2 powi (- 500) \<le> S"
  proof -
    have "1 \<le> length ws" using assms(1) by (simp add: Suc_le_eq)
    then have "(1::rat) \<le> of_nat (length ws)" by simp
    then have "1 * 2 powi (- 500) \<le> (of_nat (length ws) :: rat) * 2 powi (- 500)"
      by (intro mult_right_mono) simp_all
    with exact_sum_bounds(1) [OF R] show ?thesis unfolding S by simp
  qed
  have Shi: "S \<le> 2 ^ 20 * 2 powi 500"
  proof -
    have "(of_nat (length ws) :: rat) \<le> of_nat (2 ^ 20)"
      using assms(2) by (simp only: of_nat_le_iff)
    then have "(of_nat (length ws) :: rat) * 2 powi 500 \<le> of_nat (2 ^ 20) * 2 powi 500"
      by (intro mult_right_mono) simp_all
    with exact_sum_bounds(2) [OF R] show ?thesis unfolding S by simp
  qed
  have S0: "0 < S" using Slo powi_pos [of "- 500"] by linarith
  have l: "S * (1 - 1 / 2 ^ 33) \<le> s"
  proof -
    have "S * (1 - 1 / 2 ^ 33) \<le> S * ?p ^ length ws"
      using pw_lower [OF assms(2)] S0 by (intro mult_left_mono) simp_all
    with s1 show ?thesis unfolding S by simp
  qed
  have h: "s \<le> S * (1 + 1 / 2 ^ 32)"
  proof -
    have "S * ?P ^ length ws \<le> S * (1 + 1 / 2 ^ 32)"
      using pw_upper [OF assms(2)] S0 by (intro mult_left_mono) simp_all
    with s2 show ?thesis unfolding S by simp
  qed
  have s0: "0 < s"
  proof -
    have "0 < S * (1 - 1 / 2 ^ 33)" using S0 by simp
    with l show ?thesis by simp
  qed
  have e1: "2 powi (- 1022) \<le> q / s" and e2: "q / s \<le> 2 powi 1000" if "q \<in> set qs" for q
  proof -
    from that rg have q: "2 powi (- 500) \<le> q" by blast
    have "Fin q \<in> set ws" using that by (simp add: qs)
    from exact_sum_member [OF R _ this] have qS: "q \<le> S" unfolding S by simp
    have "2 powi (- 1022) * s \<le> 2 powi (- 1022) * (2 ^ 20 * 2 powi 500 * (1 + 1 / 2 ^ 32))"
    proof (intro mult_left_mono)
      have "S * (1 + 1 / 2 ^ 32) \<le> 2 ^ 20 * 2 powi 500 * (1 + 1 / 2 ^ 32)"
        using Shi by (intro mult_right_mono) simp_all
      with h show "s \<le> 2 ^ 20 * 2 powi 500 * (1 + 1 / 2 ^ 32)" by simp
    qed simp
    also have "\<dots> \<le> 2 powi (- 500)" by simp
    finally have "2 powi (- 1022) * s \<le> q" using q by simp
    then show "2 powi (- 1022) \<le> q / s" using s0 by (simp add: pos_le_divide_eq)
    have "q \<le> S" by (rule qS)
    also have "\<dots> \<le> S * (1 - 1 / 2 ^ 33) * 2" using S0 by simp
    also have "\<dots> \<le> s * 2" using l by (intro mult_right_mono) simp_all
    also have "\<dots> \<le> 2 powi 1000 * s" using s0 by simp
    finally show "q / s \<le> 2 powi 1000" using s0 by (simp add: pos_divide_le_eq)
  qed
  define ns where "ns = map (normalized_entry s) qs"
  have nb: "normalize_b64 t ws = map Fin ns"
    unfolding normalize_b64_def t qs ns_def
    using entry_bounds(1) [OF s0 e1 e2] by simp
  have pos: "\<forall>x \<in> set ns. 0 < x"
    unfolding ns_def using entry_bounds(4) [OF s0 e1 e2] by simp
  have up: "sum_list ns \<le> S / s * (100 * ?P ^ 2)"
  proof -
    have "sum_list ns \<le> sum_list (map (\<lambda>q. q / s * (100 * ?P ^ 2)) qs)"
      unfolding ns_def using entry_bounds(3) [OF s0 e1 e2]
      by (intro sum_list_le) (simp add: mult.assoc)
    then show ?thesis unfolding sum_list_scaled S_def .
  qed
  have dn: "S / s * (100 * ?p ^ 2) \<le> sum_list ns"
  proof -
    have "sum_list (map (\<lambda>q. q / s * (100 * ?p ^ 2)) qs) \<le> sum_list ns"
      unfolding ns_def using entry_bounds(2) [OF s0 e1 e2]
      by (intro sum_list_le) (simp add: mult.assoc)
    then show ?thesis unfolding sum_list_scaled S_def .
  qed
  have r1: "S / s \<le> 1 / (1 - 1 / 2 ^ 33)"
  proof -
    have "S * (1 - 1 / 2 ^ 33) / (1 - 1 / 2 ^ 33) \<le> s / (1 - 1 / 2 ^ 33)"
      using l by (intro divide_right_mono) simp_all
    then have "S \<le> s / (1 - 1 / 2 ^ 33)" by simp
    then have "S / s \<le> s / (1 - 1 / 2 ^ 33) / s" using s0 by (intro divide_right_mono) simp_all
    then show ?thesis using s0 by simp
  qed
  have r2: "1 / (1 + 1 / 2 ^ 32) \<le> S / s"
  proof -
    have "s / (1 + 1 / 2 ^ 32) \<le> S * (1 + 1 / 2 ^ 32) / (1 + 1 / 2 ^ 32)"
      using h by (intro divide_right_mono) simp_all
    then have "s / (1 + 1 / 2 ^ 32) \<le> S" by simp
    then have "s / (1 + 1 / 2 ^ 32) / s \<le> S / s" using s0 by (intro divide_right_mono) simp_all
    then show ?thesis using s0 by simp
  qed
  have "sum_list ns \<le> 1 / (1 - 1 / 2 ^ 33) * (100 * ?P ^ 2)"
    using up r1 by (meson mult_right_mono order_trans zero_le_mult_iff zero_le_numeral zero_le_power2)
  also have "\<dots> \<le> 100 + 1 / 10 ^ 6" by (simp add: unit_roundoff_def power2_eq_square)
  finally have a1: "sum_list ns \<le> 100 + 1 / 10 ^ 6" .
  have "100 - 1 / 10 ^ 6 \<le> 1 / (1 + 1 / 2 ^ 32) * (100 * ?p ^ 2)"
    by (simp add: unit_roundoff_def power2_eq_square)
  also have "\<dots> \<le> S / s * (100 * ?p ^ 2)" using r2 by (intro mult_right_mono) simp_all
  also have "\<dots> \<le> sum_list ns" by (rule dn)
  finally have a2: "100 - 1 / 10 ^ 6 \<le> sum_list ns" .
  have a: "\<bar>sum_list ns - 100\<bar> \<le> 1 / 10 ^ 6" using a2 a1 by (rule abs_from_bounds)
  have ord: "ns ! i \<le> ns ! j" if "i < length ws" "j < length ws" "flt (ws ! i) (ws ! j)" for i j
  proof -
    have "qs ! i \<le> qs ! j" using that by (simp add: qs)
    moreover have "2 powi (- 1022) \<le> qs ! i / s" using that(1) n by (intro e1) simp
    ultimately have "normalized_entry s (qs ! i) \<le> normalized_entry s (qs ! j)"
      using s0 by (intro normalized_entry_mono)
    then show ?thesis using that n by (simp add: ns_def)
  qed
  from t nb a pos ord show ?thesis by blast
qed

theorem normalization_properties_witness:
  "[Fin 1, Fin 3] \<noteq> [] \<and> length [Fin 1, Fin 3] \<le> 2 ^ 20
   \<and> in_range (1 / 2 ^ 500) (2 ^ 500) (Fin 1) \<and> in_range (1 / 2 ^ 500) (2 ^ 500) (Fin 3)
   \<and> b64_sum_of [Fin 1, Fin 3] (Fin 4)
   \<and> normalize_b64 (Fin 4) [Fin 1, Fin 3] = [Fin 25, Fin 75]
   \<and> (\<exists>s ns. Fin 4 = Fin s \<and> normalize_b64 (Fin 4) [Fin 1, Fin 3] = map Fin ns
        \<and> \<bar>sum_list ns - 100\<bar> \<le> 1 / 10 ^ 6 \<and> ns ! 0 \<le> ns ! 1)"
proof -
  have r: "in_range (1 / 2 ^ 500) (2 ^ 500) (Fin 1)" "in_range (1 / 2 ^ 500) (2 ^ 500) (Fin 3)"
    by (simp_all add: in_range_def)
  have "sum_left_to_right [Fin 1, Fin 3] = Fin 4"
    by (simp add: b64_add_def round_b64_numeral)
  with sum_left_to_right_is_sum [of "[Fin 1, Fin 3]"] have t: "b64_sum_of [Fin 1, Fin 3] (Fin 4)"
    by simp
  have "round_b64 (1 / 4) = Fin (of_int (2 ^ 52) * 2 powi (- 2 - 52))"
    by (rule round_b64_eq [where e = "- 2"]) simp_all
  then have d1: "b64_div (Fin 1) (Fin 4) = Fin (1 / 4)" by (simp add: b64_div_def)
  have "round_b64 (3 / 4) = Fin (of_int (3 * 2 ^ 51) * 2 powi (- 1 - 52))"
    by (rule round_b64_eq [where e = "- 1"]) simp_all
  then have d3: "b64_div (Fin 3) (Fin 4) = Fin (3 / 4)" by (simp add: b64_div_def)
  have v: "normalize_b64 (Fin 4) [Fin 1, Fin 3] = [Fin 25, Fin 75]"
    using d1 d3 by (simp add: normalize_b64_def b64_mul_def round_b64_numeral)
  have h: "\<forall>w \<in> set [Fin 1, Fin 3]. in_range (1 / 2 ^ 500) (2 ^ 500) w" using r by simp
  from normalization_properties [OF _ _ h t] obtain s ns where
    n: "Fin 4 = Fin s" "normalize_b64 (Fin 4) [Fin 1, Fin 3] = map Fin ns"
      "\<bar>sum_list ns - 100\<bar> \<le> 1 / 10 ^ 6"
      "\<forall>i < length [Fin 1, Fin (3::rat)]. \<forall>j < length [Fin 1, Fin (3::rat)].
          flt ([Fin 1, Fin 3] ! i) ([Fin 1, Fin 3] ! j) \<longrightarrow> ns ! i \<le> ns ! j"
    by auto
  from n(4) have "flt ([Fin 1, Fin 3] ! 0) ([Fin 1, Fin 3] ! 1) \<longrightarrow> ns ! 0 \<le> ns ! 1"
    by simp
  then have o: "ns ! 0 \<le> ns ! 1" by simp
  from r t v n(1-3) o show ?thesis by (intro conjI exI [of _ s] exI [of _ ns]) simp_all
qed

text \<open>
  The claim as stated fails in two ways. Two weights of \<open>2 ^ 1023\<close> are positive, their
  total overflows to infinity, and both are normalized to zero: the normalized weights
  sum to 0, not to 100. And the weights \<open>1\<close>, \<open>1 + 1 / 2 ^ 52\<close> and \<open>9\<close> have the total 11,
  and the first two, although different, are normalized to the same float: the order
  of the raw weights is not the order of the normalized ones.
\<close>

theorem normalization_overflow_and_tie:
  "sum_left_to_right [Fin (2 ^ 1023), Fin (2 ^ 1023)] = PInf
   \<and> normalize_b64 PInf [Fin (2 ^ 1023), Fin (2 ^ 1023)] = [Fin 0, Fin 0]
   \<and> sum_left_to_right [Fin 1, Fin (1 + 1 / 2 ^ 52), Fin 9] = Fin 11
   \<and> flt (Fin 1) (Fin (1 + 1 / 2 ^ 52))
   \<and> normalize_b64 (Fin 11) [Fin 1, Fin (1 + 1 / 2 ^ 52), Fin 9] ! 0
      = normalize_b64 (Fin 11) [Fin 1, Fin (1 + 1 / 2 ^ 52), Fin 9] ! 1"
  using overflow_total overflow_normalized tie_total tie_normalized by simp






text \<open>
  Claim C6. In every report the finding of rule 2 has status ANALYZED, and the two
  counts of the summary are the numbers of findings of the top-level list with status
  HARD_VIOLATION and SOFT_WARNING. The entries of rule 2's own list of violations are
  not counted: each count is the count over the findings of rules 1, 3, 4 and 5.
\<close>

theorem summary_counts_top_level_only:
  assumes "check_portfolio_rules sw verbose now = Inr (rep, out)"
  shows "map rule_no (checks rep) = [1, 2, 3, 4, 5]
    \<and> status (checks rep ! 1) = ANALYZED
    \<and> hard_violations_count (summary rep)
        = length (filter (\<lambda>c. status c = HARD_VIOLATION) (checks rep))
    \<and> soft_warnings_count (summary rep)
        = length (filter (\<lambda>c. status c = SOFT_WARNING) (checks rep))
    \<and> hard_violations_count (summary rep)
        = length (filter (\<lambda>c. status c = HARD_VIOLATION)
            [checks rep ! 0, checks rep ! 2, checks rep ! 3, checks rep ! 4])
    \<and> soft_warnings_count (summary rep)
        = length (filter (\<lambda>c. status c = SOFT_WARNING)
            [checks rep ! 0, checks rep ! 2, checks rep ! 3, checks rep ! 4])"
proof -
  from check_Inr [OF assms] obtain c1 c2 c3 c4 c5 where
    r1: "rule1 (map fst sw) (normalize_weights (map snd sw)) = Inr c1"
    and r2: "rule2 (map fst sw) (zip (map fst sw) (normalize_weights (map snd sw))) = Inr c2"
    and r3: "rule3 (map fst sw) (zip (map fst sw) (normalize_weights (map snd sw))) = Inr c3"
    and r4: "rule4 (map fst sw) (zip (map fst sw) (normalize_weights (map snd sw))) = Inr c4"
    and r5: "rule5 (map fst sw) (zip (map fst sw) (normalize_weights (map snd sw))) = Inr c5"
    and rep: "checks rep = [c1, c2, c3, c4, c5]" "summary rep = summarize [c1, c2, c3, c4, c5]"
    by fastforce
  have n1: "rule_no c1 = 1" using r1 by (auto simp: rule1_def ebind_eq_Inr Let_def)
  have n2: "rule_no c2 = 2 \<and> status c2 = ANALYZED"
    using r2 by (auto simp: rule2_def rule2_finding_def ebind_eq_Inr)
  have n3: "rule_no c3 = 3" using r3 by (auto simp: rule3_def ebind_eq_Inr)
  have n4: "rule_no c4 = 4" using r4 by (auto simp: rule4_def ebind_eq_Inr)
  have n5: "rule_no c5 = 5" using r5 by (auto simp: rule5_def ebind_eq_Inr)
  show ?thesis
    using n1 n2 n3 n4 n5 by (simp add: rep summarize_def Let_def)
qed

theorem summary_counts_top_level_only_witness:
  "\<exists>rep out. check_portfolio_rules clustered_weights False [] = Inr (rep, out)
     \<and> status (checks rep ! 1) = ANALYZED
     \<and> map cluster_status (the (violations (checks rep ! 1))) = [HARD_VIOLATION]
     \<and> hard_violations_count (summary rep) = 0
     \<and> hard_violations_count (summary rep)
        = length (filter (\<lambda>c. status c = HARD_VIOLATION) (checks rep))"
proof -
  have "clustered_weights \<noteq> [] \<and> table_present (map fst clustered_weights)"
    by (simp add: clustered_weights_def table_present_def high_corr_pairs_def)
  with check_ok [of clustered_weights False "[]"] obtain rep out where
    r: "check_portfolio_rules clustered_weights False [] = Inr (rep, out)" by blast
  from clustered_report r have
    "hard_violations_count (summary rep) = 0
     \<and> map cluster_status (the (violations (checks rep ! 1))) = [HARD_VIOLATION]" by simp
  with summary_counts_top_level_only [OF r] r show ?thesis
    by (intro exI [of _ rep] exI [of _ out]) simp
qed

text \<open>
  Claim C7 (the code does otherwise). The claim expects a report for the portfolio
  \<^verbatim>\<open>{Energy: 100}\<close>. The code returns none: \<^verbatim>\<open>sectors.index("Information Technology")\<close>
  raises ValueError in rule 2.
\<close>

theorem energy_only_raises:
  "check_portfolio_rules [(''Energy'', Fin 100)] verbose now = Inl ValueError"
  by (rule check_missing) (simp add: table_present_def high_corr_pairs_def)

text \<open>
  Claim C8, as amended. When the total that \<^verbatim>\<open>weights.sum()\<close> returns is exactly 100, step
  0 returns every weight up to two roundings, that of the quotient and that of the
  product: a weight of magnitude between \<open>1 / 2 ^ 1000\<close> and \<open>2 ^ 1000\<close> is changed by at most
  the fraction \<open>1 / 2 ^ 51\<close> of itself, and a weight of zero is returned as zero. The
  normalized series is not identical to the input in general.
\<close>

theorem normalization_fixed_point_up_to_rounding:
  assumes "b64_sum_of (map Fin qs) (Fin 100)"
    and "\<forall>q \<in> set qs. q = 0 \<or> (1 / 2 ^ 1000 \<le> \<bar>q\<bar> \<and> \<bar>q\<bar> \<le> 2 ^ 1000)"
  shows "\<exists>ns. normalize_b64 (Fin 100) (map Fin qs) = map Fin ns \<and> length ns = length qs
      \<and> (\<forall>i < length qs. \<bar>ns ! i - qs ! i\<bar> \<le> \<bar>qs ! i\<bar> / 2 ^ 51)"
  using assms(2)
proof (induction qs)
  case Nil
  show ?case by (simp add: normalize_b64_def)
next
  case (Cons q qs)
  from Cons.prems have "q = 0 \<or> (1 / 2 ^ 1000 \<le> \<bar>q\<bar> \<and> \<bar>q\<bar> \<le> 2 ^ 1000)" by simp
  from fixed_point_entry [OF this] obtain r where
    r: "b64_mul (b64_div (Fin q) (Fin 100)) (Fin 100) = Fin r" "\<bar>r - q\<bar> \<le> \<bar>q\<bar> / 2 ^ 51" by blast
  from Cons obtain ns where
    ns: "normalize_b64 (Fin 100) (map Fin qs) = map Fin ns" "length ns = length qs"
      "\<forall>i < length qs. \<bar>ns ! i - qs ! i\<bar> \<le> \<bar>qs ! i\<bar> / 2 ^ 51" by auto
  have "normalize_b64 (Fin 100) (map Fin (q # qs)) = map Fin (r # ns)"
    using r(1) ns(1) by (simp add: normalize_b64_def)
  moreover have "\<forall>i < length (q # qs). \<bar>(r # ns) ! i - (q # qs) ! i\<bar> \<le> \<bar>(q # qs) ! i\<bar> / 2 ^ 51"
    using r(2) ns(3) by (auto simp: nth_Cons split: nat.splits)
  ultimately show ?case using ns(2) by (intro exI [of _ "r # ns"]) simp
qed

theorem normalization_fixed_point_up_to_rounding_witness:
  "b64_sum_of (map Fin [28, 72]) (Fin 100)
   \<and> 1 / 2 ^ 1000 \<le> \<bar>28 :: rat\<bar> \<and> \<bar>28 :: rat\<bar> \<le> 2 ^ 1000
   \<and> 1 / 2 ^ 1000 \<le> \<bar>72 :: rat\<bar> \<and> \<bar>72 :: rat\<bar> \<le> 2 ^ 1000
   \<and> normalize_b64 (Fin 100) (map Fin [28, 72]) = [Fin (28 + 1 / 2 ^ 48), Fin 72]
   \<and> (\<exists>ns. normalize_b64 (Fin 100) (map Fin [28, 72]) = map Fin ns
         \<and> \<bar>ns ! 0 - 28\<bar> \<le> 28 / 2 ^ 51 \<and> \<bar>ns ! 1 - 72\<bar> \<le> 72 / 2 ^ 51)"
proof -
  have "sum_left_to_right [Fin 28, Fin 72] = Fin 100"
    by (simp add: b64_add_def round_b64_numeral)
  with sum_left_to_right_is_sum [of "[Fin 28, Fin 72]"]
  have t: "b64_sum_of (map Fin [28, 72]) (Fin 100)" by simp
  have r: "\<forall>q \<in> set [28, 72 :: rat]. q = 0 \<or> (1 / 2 ^ 1000 \<le> \<bar>q\<bar> \<and> \<bar>q\<bar> \<le> 2 ^ 1000)"
    by simp
  from normalization_fixed_point_up_to_rounding [OF t r] obtain ns where
    n: "normalize_b64 (Fin 100) (map Fin [28, 72]) = map Fin ns"
      "\<forall>i < length [28, 72 :: rat]. \<bar>ns ! i - [28, 72] ! i\<bar> \<le> \<bar>[28, 72] ! i\<bar> / 2 ^ 51"
    by blast
  have b: "\<bar>ns ! 0 - 28\<bar> \<le> 28 / 2 ^ 51" "\<bar>ns ! 1 - 72\<bar> \<le> 72 / 2 ^ 51"
    using n(2) [rule_format, of 0] n(2) [rule_format, of 1] by simp_all
  have v: "normalize_b64 (Fin 100) (map Fin [28, 72]) = [Fin (28 + 1 / 2 ^ 48), Fin 72]"
    using normalize_28_72 by simp
  have g: "1 / 2 ^ 1000 \<le> \<bar>28 :: rat\<bar>" "\<bar>28 :: rat\<bar> \<le> 2 ^ 1000"
    "1 / 2 ^ 1000 \<le> \<bar>72 :: rat\<bar>" "\<bar>72 :: rat\<bar> \<le> 2 ^ 1000" by simp_all
  show ?thesis
    apply (intro conjI exI [of _ ns])
            apply (rule t)
           apply (rule g(1))
          apply (rule g(2))
         apply (rule g(3))
        apply (rule g(4))
       apply (rule v)
      apply (rule n(1))
     apply (rule b(1))
    apply (rule b(2))
    done
qed

text \<open>
  The claim as stated fails on the module's own example: its weights sum to exactly
  100, and its first weight, 28, is normalized to \<open>28 + 1 / 2 ^ 48\<close>
  (\<^verbatim>\<open>28.0 / 100.0 * 100\<close> is \<^verbatim>\<open>28.000000000000004\<close>).
\<close>

theorem example_not_a_fixed_point:
  "sum_left_to_right (map snd example_weights) = Fin 100
   \<and> map snd example_weights ! 0 = Fin 28
   \<and> normalize_b64 (Fin 100) (map snd example_weights) ! 0 = Fin (28 + 1 / 2 ^ 48)
   \<and> normalize_b64 (Fin 100) (map snd example_weights) \<noteq> map snd example_weights"
proof -
  have a: "map snd example_weights ! 0 = Fin 28" by (simp add: example_weights_def)
  have "normalize_b64 (Fin 100) (map snd example_weights) ! 0 \<noteq> map snd example_weights ! 0"
    unfolding a example_first_entry by simp
  then have "normalize_b64 (Fin 100) (map snd example_weights) \<noteq> map snd example_weights"
    by metis
  with example_total a example_first_entry show ?thesis by simp
qed

text \<open>
  Claim C9. The verbose flag changes only what is printed. With the same clock reading
  the two evaluations return the same report or the same exception; with different
  clock readings the reports differ in the timestamp alone.
\<close>

theorem verbose_does_not_change_report:
  "map_sum id fst (check_portfolio_rules sw True now) = map_sum id fst (check_portfolio_rules sw False now)
   \<and> map_sum id (\<lambda>r. (fst r)\<lparr>timestamp := []\<rparr>) (check_portfolio_rules sw True now1)
     = map_sum id (\<lambda>r. (fst r)\<lparr>timestamp := []\<rparr>) (check_portfolio_rules sw False now2)"
  by (simp add: check_portfolio_rules_def finish_report_def Let_def ebind_def split: sum.splits)

text \<open>
  Claim C10. A call leaves the caller's mapping as it was. On the store, with the
  mapping at address \<open>d\<close>: the call returns what the evaluation on values returns
  (report or exception), and afterwards the object at \<open>d\<close> is the same mapping; in fact
  every object that existed before the call is unchanged. The arrays of step 0 are new
  objects, and the two in-place writes of the function (lines 72 and 76) go to matrices
  that the call itself created.
\<close>

theorem caller_mapping_unchanged:
  assumes "lookup s d = Some (Dict sw)"
  shows "snd (check_portfolio_rules_st d verbose now s) = check_portfolio_rules sw verbose now
     \<and> lookup (fst (check_portfolio_rules_st d verbose now s)) d = Some (Dict sw)
     \<and> (\<forall>a < length s. lookup (fst (check_portfolio_rules_st d verbose now s)) a = lookup s a)"
proof -
  let ?s' = "fst (check_portfolio_rules_st d verbose now s)"
  from keeps_check [of "length s" d verbose now]
  have len: "length s \<le> length ?s'" and tk: "take (length s) ?s' = s"
    by (simp_all add: keeps_def)
  have same: "lookup ?s' a = lookup s a" if "a < length s" for a
  proof -
    have "?s' ! a = take (length s) ?s' ! a" using that by simp
    with tk have "?s' ! a = s ! a" by simp
    with that len show ?thesis by (simp add: lookup_def)
  qed
  have "d < length s" using assms by (simp add: lookup_def split: if_splits)
  with same [of d] assms have "lookup ?s' d = Some (Dict sw)" by simp
  with same check_st_refines [OF assms] show ?thesis by blast
qed

theorem caller_mapping_unchanged_witness:
  "lookup [Dict example_weights] 0 = Some (Dict example_weights)
   \<and> lookup (fst (check_portfolio_rules_st 0 False [] [Dict example_weights])) 0
       = Some (Dict example_weights)
   \<and> length (fst (check_portfolio_rules_st 0 False [] [Dict example_weights])) = 8
   \<and> lookup [Dict [(''Energy'', Fin 100)]] 0 = Some (Dict [(''Energy'', Fin 100)])
   \<and> snd (check_portfolio_rules_st 0 False [] [Dict [(''Energy'', Fin 100)]]) = Inl ValueError
   \<and> lookup (fst (check_portfolio_rules_st 0 False [] [Dict [(''Energy'', Fin 100)]])) 0
       = Some (Dict [(''Energy'', Fin 100)])"
proof -
  have a: "lookup [Dict example_weights] 0 = Some (Dict example_weights)"
    by (simp add: lookup_def)
  have b: "lookup [Dict [(''Energy'', Fin 100)]] 0 = Some (Dict [(''Energy'', Fin 100)])"
    by (simp add: lookup_def)
  have c: "check_portfolio_rules [(''Energy'', Fin 100)] False [] = Inl ValueError"
    by (rule check_missing) (simp add: table_present_def high_corr_pairs_def)
  from caller_mapping_unchanged [OF a, of False "[]"] caller_mapping_unchanged [OF b, of False "[]"]
    a b c example_store_size
  show ?thesis by simp
qed

end
